theory Spec2Isabelle
  imports Main "HOL-Library.Sublist" "HOL-Library.AList"
begin

text \<open>
  A model of the chat server of \<^verbatim>\<open>app.py\<close> (class \<open>ChatServer\<close>): the message log, the
  registry of connected clients, \<open>broadcast_message\<close> and the handler of one connection,
  \<open>handle_client\<close>, cut into the pieces that run without waiting for input. Sockets are
  modelled by a store that records what is written to each connection and what arrives;
  exceptions are values. The first part holds the definitions, the second the properties.
\<close>

section \<open>Text\<close>

text \<open>
  The server decodes what it reads as UTF-8 and encodes what it sends as UTF-8. A text is
  modelled by its UTF-8 bytes, so decoding and encoding are the identity on it; input that
  is not valid UTF-8 makes \<open>decode\<close> raise, which is one of the exceptions of a read below.
  The patterns the code compares with (\<open>"list"\<close>, \<open>"send "\<close>, the separator \<open>" "\<close>) are
  ASCII, and an ASCII byte never occurs inside a multi-byte sequence, so comparing, splitting
  and replacing on the bytes is comparing, splitting and replacing on the code points.
\<close>

text \<open>
  The code points for which Python's \<open>str.isspace\<close> holds, which are the ones \<open>str.strip()\<close>
  removes, each as its UTF-8 bytes: U+0009..U+000D, U+001C..U+001F, U+0020, U+0085, U+00A0,
  U+1680, U+2000..U+200A, U+2028, U+2029, U+202F, U+205F, U+3000.
\<close>

definition whitespace :: "string list" where
  "whitespace =
     map (\<lambda>b. [b]) [CHR 0x09, CHR 0x0A, CHR 0x0B, CHR 0x0C, CHR 0x0D,
                    CHR 0x1C, CHR 0x1D, CHR 0x1E, CHR 0x1F, CHR 0x20]
     @ [[CHR 0xC2, CHR 0x85], [CHR 0xC2, CHR 0xA0], [CHR 0xE1, CHR 0x9A, CHR 0x80]]
     @ map (\<lambda>b. [CHR 0xE2, CHR 0x80, b])
         [CHR 0x80, CHR 0x81, CHR 0x82, CHR 0x83, CHR 0x84, CHR 0x85, CHR 0x86, CHR 0x87,
          CHR 0x88, CHR 0x89, CHR 0x8A, CHR 0xA8, CHR 0xA9, CHR 0xAF]
     @ [[CHR 0xE2, CHR 0x81, CHR 0x9F], [CHR 0xE3, CHR 0x80, CHR 0x80]]"

text \<open>Removing, from the front, every leading occurrence of one of the given sequences.\<close>

function strip_front :: "string list \<Rightarrow> string \<Rightarrow> string" where
  "strip_front ws [] = []"
| "strip_front ws (c # cs) =
     (case find (\<lambda>w. w \<noteq> [] \<and> prefix w (c # cs)) ws of
        None \<Rightarrow> c # cs
      | Some w \<Rightarrow> strip_front ws (drop (length w) (c # cs)))"
  by pat_completeness auto
termination
proof (relation "measure (\<lambda>(ws, s). length s)")
  show "wf (measure (\<lambda>(ws, s). length s))" by simp
next
  fix ws :: "string list" and c :: char and cs :: string and w :: string
  assume "find (\<lambda>w. w \<noteq> [] \<and> prefix w (c # cs)) ws = Some w"
  then have "w \<noteq> []" by (auto simp: find_Some_iff)
  then show "((ws, drop (length w) (c # cs)), (ws, c # cs)) \<in> measure (\<lambda>(ws, s). length s)"
    by (cases w) simp_all
qed

definition lstrip :: "string \<Rightarrow> string" where
  "lstrip s = strip_front whitespace s"

definition rstrip :: "string \<Rightarrow> string" where
  "rstrip s = rev (strip_front (map rev whitespace) (rev s))"

text \<open>\<open>s.strip()\<close>\<close>

definition strip :: "string \<Rightarrow> string" where
  "strip s = rstrip (lstrip s)"

text \<open>\<open>s.split(sep, maxsplit)\<close> for a separator of one character.\<close>

fun split_max :: "char \<Rightarrow> nat \<Rightarrow> string \<Rightarrow> string list" where
  "split_max sep 0 s = [s]"
| "split_max sep (Suc n) s =
     (if sep \<in> set s
      then takeWhile (\<lambda>c. c \<noteq> sep) s # split_max sep n (tl (dropWhile (\<lambda>c. c \<noteq> sep) s))
      else [s])"

text \<open>\<open>s.replace(old, new, 1)\<close>: the leftmost occurrence of \<open>old\<close> is replaced.\<close>

fun replace_first :: "string \<Rightarrow> string \<Rightarrow> string \<Rightarrow> string" where
  "replace_first old new [] = (if old = [] then new else [])"
| "replace_first old new (c # cs) =
     (if prefix old (c # cs) then new @ drop (length old) (c # cs)
      else c # replace_first old new cs)"

text \<open>\<open>sep.join(xs)\<close>\<close>

fun join :: "string \<Rightarrow> string list \<Rightarrow> string" where
  "join sep [] = []"
| "join sep [x] = x"
| "join sep (x # y # ys) = x @ sep @ join sep (y # ys)"

section \<open>Sockets\<close>

text \<open>
  A connection handle is the identity of a socket object. The store maps each handle to what
  the model records of its socket: whether the peer still accepts data, whether \<open>close()\<close> has
  been called on it, every payload that was handed to \<open>sendall\<close> on it (\<open>outgoing\<close>), and the
  payloads that reached the peer (\<open>received\<close>).
\<close>

type_synonym conn = nat

datatype exn = SocketTimeout | ConnectionResetError | BrokenPipeError | OSError | KeyError

datatype link = Up | PeerReset | PipeBroken

record sock =
  peer :: link
  closed :: bool
  outgoing :: "string list"
  received :: "string list"

text \<open>
  \<open>conn.sendall(m.encode('utf-8'))\<close>: on a closed handle it raises \<open>OSError\<close> (bad file
  descriptor); otherwise the peer's end decides: the payload arrives, or the call raises
  \<open>ConnectionResetError\<close> or \<open>BrokenPipeError\<close>.
\<close>

definition sendall :: "conn \<Rightarrow> string \<Rightarrow> (conn \<Rightarrow> sock) \<Rightarrow> exn option \<times> (conn \<Rightarrow> sock)" where
  "sendall c m n =
     (let k = (n c)\<lparr>outgoing := outgoing (n c) @ [m]\<rparr> in
      if closed k then (Some OSError, n(c := k))
      else case peer k of
             Up \<Rightarrow> (None, n(c := k\<lparr>received := received k @ [m]\<rparr>))
           | PeerReset \<Rightarrow> (Some ConnectionResetError, n(c := k))
           | PipeBroken \<Rightarrow> (Some BrokenPipeError, n(c := k)))"

section \<open>The server\<close>

text \<open>
  \<open>clients\<close>, \<open>chat_history\<close> and \<open>running\<close> are the attributes of \<open>ChatServer\<close> that the
  handlers use. \<open>clients\<close> is a Python dict \<open>{username: (ip, conn)}\<close>: an association list in
  insertion order, read with \<open>map_of\<close>, written with \<open>AList.update\<close> (a present key keeps its
  place, a new key goes to the end) and \<open>AList.delete\<close>. \<open>socks\<close> is the store of the socket
  objects the handles refer to.
\<close>

record state =
  clients :: "(string \<times> string \<times> conn) list"
  chat_history :: "string list"
  running :: bool
  socks :: "conn \<Rightarrow> sock"

text \<open>\<open>conn.close()\<close>\<close>

definition close :: "conn \<Rightarrow> state \<Rightarrow> state" where
  "close c s = s\<lparr>socks := (socks s)(c := (socks s c)\<lparr>closed := True\<rparr>)\<rparr>"

text \<open>
  \<open>store_message\<close>; \<open>timestamp\<close> is what
  \<open>datetime.datetime.now().strftime("%Y-%m-%d %H:%M:%S")\<close> returned.
\<close>

definition store_message :: "string \<Rightarrow> string \<Rightarrow> string \<Rightarrow> state \<Rightarrow> string \<times> state" where
  "store_message sender message timestamp s =
     (let entry = ''['' @ timestamp @ ''] '' @ sender @ '': '' @ message
      in (entry, s\<lparr>chat_history := chat_history s @ [entry]\<rparr>))"

text \<open>\<open>get_help\<close>; the arrow U+2192 is the bytes E2 86 92.\<close>

definition arrow :: string where
  "arrow = [CHR 0xE2, CHR 0x86, CHR 0x92]"

definition get_help :: string where
  "get_help =
     ''\<newline>Available commands:\<newline>''
     @ ''  list                       '' @ arrow @ '' list all connected users\<newline>''
     @ ''  broadcast <msg>            '' @ arrow @ '' send message to everyone\<newline>''
     @ ''  send <username> <msg>      '' @ arrow @ '' private message to user\<newline>''
     @ ''  exit                       '' @ arrow @ '' disconnect\<newline>''"

subsection \<open>\<open>broadcast_message\<close>\<close>

text \<open>
  The first loop: over the items of \<open>clients\<close>, with the users whose send raised
  \<open>ConnectionResetError\<close> or \<open>BrokenPipeError\<close> collected in \<open>disconnected_users\<close>. Any other
  exception leaves the loop and the function.
\<close>

fun send_pass ::
  "string \<Rightarrow> string option \<Rightarrow> (string \<times> string \<times> conn) list \<Rightarrow> string list \<Rightarrow> (conn \<Rightarrow> sock)
   \<Rightarrow> exn option \<times> string list \<times> (conn \<Rightarrow> sock)" where
  "send_pass message exclude_username [] disconnected_users n = (None, disconnected_users, n)"
| "send_pass message exclude_username ((username, _, conn) # items) disconnected_users n =
     (if Some username = exclude_username
      then send_pass message exclude_username items disconnected_users n
      else case sendall conn message n of
             (None, n') \<Rightarrow> send_pass message exclude_username items disconnected_users n'
           | (Some e, n') \<Rightarrow>
               if e = ConnectionResetError \<or> e = BrokenPipeError
               then send_pass message exclude_username items (disconnected_users @ [username]) n'
               else (Some e, disconnected_users, n'))"

text \<open>The second loop: each recorded user still in \<open>clients\<close> is closed and deleted.\<close>

fun remove_disconnected :: "string list \<Rightarrow> state \<Rightarrow> state" where
  "remove_disconnected [] s = s"
| "remove_disconnected (username # rest) s =
     (case map_of (clients s) username of
        None \<Rightarrow> remove_disconnected rest s
      | Some (_, conn) \<Rightarrow>
          remove_disconnected rest
            ((close conn s)\<lparr>clients := AList.delete username (clients s)\<rparr>))"

definition broadcast_message :: "string \<Rightarrow> string option \<Rightarrow> state \<Rightarrow> exn option \<times> state" where
  "broadcast_message message exclude_username s =
     (case send_pass message exclude_username (clients s) [] (socks s) of
        (Some e, _, n) \<Rightarrow> (Some e, s\<lparr>socks := n\<rparr>)
      | (None, disconnected_users, n) \<Rightarrow>
          (None, remove_disconnected disconnected_users (s\<lparr>socks := n\<rparr>)))"

subsection \<open>\<open>handle_client\<close>: the loop body\<close>

text \<open>
  How one pass through the body of \<open>while self.running\<close> ends: the loop goes on, it is left
  by \<open>break\<close>, or an exception leaves the inner \<open>try\<close> for the outer one.
\<close>

datatype flow = Next | Break | Raised exn

text \<open>The handlers of the inner \<open>try\<close>: a timeout continues, a reset or broken pipe breaks.\<close>

fun inner_except :: "exn \<Rightarrow> flow" where
  "inner_except SocketTimeout = Next"
| "inner_except ConnectionResetError = Break"
| "inner_except BrokenPipeError = Break"
| "inner_except e = Raised e"

text \<open>\<open>conn.sendall(...)\<close> as a statement of the loop body.\<close>

definition reply :: "conn \<Rightarrow> string \<Rightarrow> state \<Rightarrow> flow \<times> state" where
  "reply conn m s =
     (case sendall conn m (socks s) of
        (None, n) \<Rightarrow> (Next, s\<lparr>socks := n\<rparr>)
      | (Some e, n) \<Rightarrow> (inner_except e, s\<lparr>socks := n\<rparr>))"

definition list_response :: "state \<Rightarrow> string" where
  "list_response s =
     ''Connected clients:\<newline>''
     @ join ''\<newline>'' (map (\<lambda>(u, i, _). ''  '' @ u @ ''@'' @ i) (clients s))"

text \<open>The command chain, \<open>if data == "list"\<close> to the final \<open>else\<close>.\<close>

definition dispatch :: "string \<Rightarrow> conn \<Rightarrow> string \<Rightarrow> state \<Rightarrow> flow \<times> state" where
  "dispatch username conn data s =
     (if data = ''list'' then reply conn (list_response s) s
      else if prefix ''broadcast '' data then
        (let msg = replace_first ''broadcast '' [] data;
             broadcast_msg = ''[BROADCAST from '' @ username @ ''] '' @ msg
         in case broadcast_message broadcast_msg (Some username) s of
              (None, s') \<Rightarrow> (Next, s')
            | (Some e, s') \<Rightarrow> (inner_except e, s'))
      else if prefix ''send '' data then
        (case split_max (CHR '' '') 2 data of
           [_, target_user, msg] \<Rightarrow>
             (case map_of (clients s) target_user of
                Some (_, t_conn) \<Rightarrow>
                  (case sendall t_conn (''[Private from '' @ username @ ''] '' @ msg) (socks s) of
                     (None, n) \<Rightarrow> (Next, s\<lparr>socks := n\<rparr>)
                   | (Some e, n) \<Rightarrow>
                       if e = ConnectionResetError \<or> e = BrokenPipeError
                       then reply conn (''User '' @ target_user @ '' is not connected.'')
                              (s\<lparr>socks := n\<rparr>)
                       else (inner_except e, s\<lparr>socks := n\<rparr>))
              | None \<Rightarrow> reply conn (''User '' @ target_user @ '' not found.'') s)
         | _ \<Rightarrow> reply conn ''Usage: send <username> <message>'' s)
      else if data = ''exit'' then (Break, s)
      else reply conn get_help s)"

text \<open>
  What one pass of the loop finds: \<open>select\<close> reports nothing to read, or \<open>recv\<close> and
  \<open>decode\<close> give a text, or one of them raises.
\<close>

datatype poll = NoData | Recv string | RecvRaised exn

definition serve :: "string \<Rightarrow> string \<Rightarrow> conn \<Rightarrow> poll \<Rightarrow> string \<Rightarrow> state \<Rightarrow> flow \<times> state" where
  "serve username ip conn p timestamp s =
     (case p of
        NoData \<Rightarrow> (Next, s)
      | RecvRaised e \<Rightarrow> (inner_except e, s)
      | Recv raw \<Rightarrow>
          (let data = strip raw in
           if data = [] then (Break, s)
           else let (entry, s1) = store_message (username @ ''@'' @ ip) data timestamp s
                in dispatch username conn data s1))"

subsection \<open>\<open>handle_client\<close>: the \<open>finally\<close> block\<close>

text \<open>
  \<open>username\<close> is the local variable, \<open>None\<close> until the name has been read. An exception of
  the block leaves the handler; \<open>del\<close> of a missing key raises \<open>KeyError\<close>.
\<close>

definition finally_block ::
  "string option \<Rightarrow> string \<Rightarrow> conn \<Rightarrow> string \<Rightarrow> state \<Rightarrow> exn option \<times> state" where
  "finally_block username ip conn timestamp s =
     (case username of
        None \<Rightarrow> (None, close conn s)
      | Some u \<Rightarrow>
          if u \<noteq> [] \<and> map_of (clients s) u \<noteq> None then
            (let (entry, s1) = store_message ''Server'' (u @ ''@'' @ ip @ '' left the chat'') timestamp s
             in case broadcast_message (''[Server] '' @ u @ '' left the chat'') (Some u) s1 of
                  (Some e, s2) \<Rightarrow> (Some e, s2)
                | (None, s2) \<Rightarrow>
                    if map_of (clients s2) u = None then (Some KeyError, s2)
                    else (None, close conn (s2\<lparr>clients := AList.delete u (clients s2)\<rparr>)))
          else (None, close conn s))"

subsection \<open>\<open>handle_client\<close>: from the accepted connection to the loop\<close>

text \<open>
  How the statements before the loop end: the loop is entered, the function returns, or an
  exception is raised. In the last two cases the \<open>finally\<close> block follows (every exception
  of the model is an \<open>Exception\<close>, which the outer handler catches and prints).
  \<open>rx\<close> is what \<open>conn.recv(1024).decode('utf-8')\<close> gives under the timeout of 5 seconds.
\<close>

datatype entry = Enter | Return | Throw exn

definition negotiate ::
  "conn \<Rightarrow> string \<Rightarrow> exn + string \<Rightarrow> string \<Rightarrow> state \<Rightarrow> string option \<times> entry \<times> state" where
  "negotiate conn ip rx timestamp s =
     (case rx of
        Inl e \<Rightarrow> (None, Throw e, s)
      | Inr raw \<Rightarrow>
          (let username = strip raw in
           if username = [] then (Some username, Return, close conn s)
           else if map_of (clients s) username \<noteq> None then
             (case sendall conn ''Username already taken. Disconnecting.'' (socks s) of
                (Some e, n) \<Rightarrow> (Some username, Throw e, s\<lparr>socks := n\<rparr>)
              | (None, n) \<Rightarrow> (Some username, Return, close conn (s\<lparr>socks := n\<rparr>)))
           else
             (let s1 = s\<lparr>clients := AList.update username (ip, conn) (clients s)\<rparr>;
                  join_msg = username @ ''@'' @ ip @ '' joined the chat'';
                  (entry, s2) = store_message ''Server'' join_msg timestamp s1
              in case broadcast_message (''[Server] '' @ username @ '' joined the chat'')
                        (Some username) s2 of
                   (Some e, s3) \<Rightarrow> (Some username, Throw e, s3)
                 | (None, s3) \<Rightarrow>
                     (case sendall conn
                             (''Welcome to the chat, '' @ username @ ''! Type 'help' for commands.'')
                             (socks s3) of
                        (Some e, n) \<Rightarrow> (Some username, Throw e, s3\<lparr>socks := n\<rparr>)
                      | (None, n) \<Rightarrow> (Some username, Enter, s3\<lparr>socks := n\<rparr>)))))"

subsection \<open>\<open>handle_client\<close>: the handler as a machine\<close>

text \<open>
  The thread of one connection is either in its loop, with the username it registered, or
  it has ended: after its \<open>finally\<close> block, or with the exception that block raised.
  \<open>accept_step\<close> is the handler up to the first test of the loop condition; \<open>loop_step\<close> is
  one test of \<open>self.running\<close> with the pass through the body that follows. Each ends with
  the \<open>finally\<close> block when the loop is not entered or is left. \<open>t\<close> is the time of the
  first \<open>store_message\<close> of the step, \<open>t'\<close> that of the \<open>finally\<close> block.
\<close>

datatype handler = Active string | Closed | Died exn

definition ended :: "exn option \<times> state \<Rightarrow> handler \<times> state" where
  "ended r = (case r of (None, s) \<Rightarrow> (Closed, s) | (Some e, s) \<Rightarrow> (Died e, s))"

definition accept_step ::
  "conn \<Rightarrow> string \<Rightarrow> exn + string \<Rightarrow> string \<Rightarrow> string \<Rightarrow> state \<Rightarrow> handler \<times> state" where
  "accept_step conn ip rx t t' s =
     (case negotiate conn ip rx t s of
        (Some username, Enter, s1) \<Rightarrow> (Active username, s1)
      | (username, _, s1) \<Rightarrow> ended (finally_block username ip conn t' s1))"

definition loop_step ::
  "string \<Rightarrow> string \<Rightarrow> conn \<Rightarrow> poll \<Rightarrow> string \<Rightarrow> string \<Rightarrow> state \<Rightarrow> handler \<times> state" where
  "loop_step username ip conn p t t' s =
     (if \<not> running s then ended (finally_block (Some username) ip conn t' s)
      else case serve username ip conn p t s of
             (Next, s1) \<Rightarrow> (Active username, s1)
           | (_, s1) \<Rightarrow> ended (finally_block (Some username) ip conn t' s1))"

section \<open>Notions used in the statements\<close>

text \<open>
  What \<open>sendall\<close> of \<open>m\<close> leaves of a socket that is not closed, and what it raises.
\<close>

definition touched :: "string \<Rightarrow> sock \<Rightarrow> sock" where
  "touched m k = (if peer k = Up then k\<lparr>outgoing := outgoing k @ [m], received := received k @ [m]\<rparr>
                  else k\<lparr>outgoing := outgoing k @ [m]\<rparr>)"

definition fault :: "link \<Rightarrow> exn option" where
  "fault l = (case l of Up \<Rightarrow> None | PeerReset \<Rightarrow> Some ConnectionResetError | PipeBroken \<Rightarrow> Some BrokenPipeError)"

text \<open>
  The handles of the registry, and the registry as the handlers keep it: a dict has each
  key once, a handle is registered by the one handler that owns it, and a handle is deleted
  from the registry before or when it is closed.
\<close>

definition handles :: "(string \<times> string \<times> conn) list \<Rightarrow> conn list" where
  "handles items = map (\<lambda>(u, ip, c). c) items"

definition registry_ok :: "state \<Rightarrow> bool" where
  "registry_ok s \<longleftrightarrow>
     distinct (map fst (clients s)) \<and> distinct (handles (clients s))
     \<and> (\<forall>c \<in> set (handles (clients s)). \<not> closed (socks s c))"

text \<open>The recipients of a broadcast whose delivery fails.\<close>

definition failed :: "string option \<Rightarrow> (conn \<Rightarrow> sock) \<Rightarrow> string \<times> string \<times> conn \<Rightarrow> bool" where
  "failed ex n = (\<lambda>(u, ip, c). Some u \<noteq> ex \<and> peer (n c) \<noteq> Up)"

section \<open>Example states\<close>

text \<open>
  Three users are registered; the peer of bob's connection has gone away, so a write to it
  is reset.
\<close>

definition idle :: sock where
  "idle = \<lparr>peer = Up, closed = False, outgoing = [], received = []\<rparr>"

definition lobby :: state where
  "lobby = \<lparr>clients = [(''alice'', ''10.0.0.1'', 7), (''bob'', ''10.0.0.2'', 8),
                       (''carol'', ''10.0.0.3'', 9)],
            chat_history = [], running = True,
            socks = (\<lambda>_. idle)(8 := idle\<lparr>peer := PeerReset\<rparr>)\<rparr>"

text \<open>Two users are registered, both connections are alive.\<close>

definition duo :: state where
  "duo = \<lparr>clients = [(''bob'', ''10.0.0.2'', 8), (''carol'', ''10.0.0.3'', 9)],
          chat_history = [], running = True, socks = (\<lambda>_. idle)\<rparr>"

section \<open>The handlers together\<close>

text \<open>
  The server runs one handler thread per accepted connection. A configuration is the state
  of the server with the handlers that are in their loop: the handle of each, with the
  username and the address it holds in its local variables. An event is one atomic piece of
  one handler, or a change of the network: \<open>Accept\<close> is a newly accepted connection (a
  socket object no handler holds, not closed) run up to its loop, \<open>Poll\<close> is one pass of the
  loop of the handler of a connection, \<open>Link\<close> is the peer end of a connection changing.
  \<open>step\<close> is \<open>None\<close> where the event cannot happen.
\<close>

datatype event =
    Accept conn string "exn + string" string string
  | Poll conn poll string string
  | Link conn link

type_synonym config = "state \<times> (conn \<rightharpoonup> string \<times> string)"

fun step :: "event \<Rightarrow> config \<Rightarrow> config option" where
  "step (Accept c ip rx t t') (s, T) =
     (if T c \<noteq> None \<or> closed (socks s c) then None
      else case accept_step c ip rx t t' s of
             (Active u, s') \<Rightarrow> Some (s', T(c \<mapsto> (u, ip)))
           | (_, s') \<Rightarrow> Some (s', T))"
| "step (Poll c p t t') (s, T) =
     (case T c of
        None \<Rightarrow> None
      | Some (u, ip) \<Rightarrow>
          (case loop_step u ip c p t t' s of
             (Active _, s') \<Rightarrow> Some (s', T)
           | (_, s') \<Rightarrow> Some (s', T(c := None))))"
| "step (Link c l) (s, T) = Some (s\<lparr>socks := (socks s)(c := (socks s c)\<lparr>peer := l\<rparr>)\<rparr>, T)"

fun run :: "event list \<Rightarrow> config \<Rightarrow> config option" where
  "run [] cfg = Some cfg"
| "run (e # es) cfg = (case step e cfg of None \<Rightarrow> None | Some cfg' \<Rightarrow> run es cfg')"

text \<open>
  What the handlers keep true: the registry is well formed, no name in it is empty, and each
  entry belongs to a handler that is in its loop with that name, address and handle.
\<close>

definition consistent :: "config \<Rightarrow> bool" where
  "consistent cfg \<longleftrightarrow>
     registry_ok (fst cfg)
     \<and> (\<forall>(u, ip, c) \<in> set (clients (fst cfg)). u \<noteq> [] \<and> snd cfg c = Some (u, ip))"

section \<open>Sending and removing\<close>

lemma sendall_open:
  "\<not> closed (n c) \<Longrightarrow> sendall c m n = (fault (peer (n c)), n(c := touched m (n c)))"
  by (simp add: sendall_def touched_def fault_def Let_def split: link.splits)

lemma sendall_other: "c' \<noteq> c \<Longrightarrow> snd (sendall c m n) c' = n c'"
  by (simp add: sendall_def Let_def split: link.splits)

lemma peer_touched [simp]: "peer (touched m k) = peer k"
  by (simp add: touched_def)

lemma closed_touched [simp]: "closed (touched m k) = closed k"
  by (simp add: touched_def)

lemma send_pass_other:
  "c \<notin> set (handles items) \<Longrightarrow> snd (snd (send_pass m ex items dis n)) c = n c"
proof (induction items arbitrary: dis n)
  case Nil
  then show ?case by simp
next
  case (Cons x items)
  obtain u ip c0 where x: "x = (u, ip, c0)" by (cases x) auto
  from Cons.prems x have ne: "c \<noteq> c0" and rest: "c \<notin> set (handles items)"
    by (auto simp: handles_def)
  have step: "snd (sendall c0 m n) c = n c" using ne by (simp add: sendall_other)
  show ?case
    using Cons.IH[OF rest] step x
    by (auto split: prod.splits option.splits)
qed

text \<open>The pass over open handles: it never raises, records the failed users in order.\<close>

lemma send_pass_open:
  assumes "\<forall>c \<in> set (handles items). \<not> closed (n c)"
  shows "fst (send_pass m ex items dis n) = None
       \<and> fst (snd (send_pass m ex items dis n)) = dis @ map fst (filter (failed ex n) items)
       \<and> (\<forall>c. peer (snd (snd (send_pass m ex items dis n)) c) = peer (n c)
             \<and> closed (snd (snd (send_pass m ex items dis n)) c) = closed (n c))"
  using assms
proof (induction items arbitrary: dis n)
  case Nil
  then show ?case by simp
next
  case (Cons x items)
  obtain u ip c0 where x: "x = (u, ip, c0)" by (cases x) auto
  show ?case
  proof (cases "Some u = ex")
    case True
    from Cons.prems have "\<forall>c \<in> set (handles items). \<not> closed (n c)"
      by (simp add: handles_def)
    from Cons.IH[OF this, of dis] True x show ?thesis
      by (simp add: failed_def)
  next
    case False
    let ?n1 = "n(c0 := touched m (n c0))"
    from Cons.prems x have op: "\<not> closed (n c0)" by (simp add: handles_def)
    have sa: "sendall c0 m n = (fault (peer (n c0)), ?n1)" using op by (simp add: sendall_open)
    have pc: "\<And>c. peer (?n1 c) = peer (n c) \<and> closed (?n1 c) = closed (n c)" by simp
    from Cons.prems pc have rest: "\<forall>c \<in> set (handles items). \<not> closed (?n1 c)"
      by (simp add: handles_def)
    have fl: "filter (failed ex ?n1) items = filter (failed ex n) items"
      by (rule filter_cong) (auto simp: failed_def)
    obtain d where eq: "send_pass m ex (x # items) dis n = send_pass m ex items d ?n1"
      and hd: "dis @ map fst (filter (failed ex n) (x # items))
               = d @ map fst (filter (failed ex n) items)"
    proof (cases "peer (n c0)")
      case Up
      with x False sa that[of dis] show ?thesis by (simp add: fault_def failed_def)
    next
      case PeerReset
      with x False sa that[of "dis @ [u]"] show ?thesis by (simp add: fault_def failed_def)
    next
      case PipeBroken
      with x False sa that[of "dis @ [u]"] show ?thesis by (simp add: fault_def failed_def)
    qed
    have ih: "fst (send_pass m ex items d ?n1) = None
       \<and> fst (snd (send_pass m ex items d ?n1)) = d @ map fst (filter (failed ex ?n1) items)
       \<and> (\<forall>c. peer (snd (snd (send_pass m ex items d ?n1)) c) = peer (?n1 c)
             \<and> closed (snd (snd (send_pass m ex items d ?n1)) c) = closed (?n1 c))"
      by (rule Cons.IH[where n = ?n1 and dis = d, OF rest])
    show ?thesis
      by (simp only: eq hd ih fl pc simp_thms)
  qed
qed

text \<open>On distinct open handles each recipient is written to exactly once.\<close>

lemma send_pass_each:
  assumes "\<forall>c \<in> set (handles items). \<not> closed (n c)" and "distinct (handles items)"
    and "(u, ip, c) \<in> set items"
  shows "snd (snd (send_pass m ex items dis n)) c = (if Some u = ex then n c else touched m (n c))"
  using assms
proof (induction items arbitrary: dis n)
  case Nil
  then show ?case by simp
next
  case (Cons x items)
  obtain u0 ip0 c0 where x: "x = (u0, ip0, c0)" by (cases x) auto
  from Cons.prems x have d: "distinct (handles items)" and c0: "c0 \<notin> set (handles items)"
    by (simp_all add: handles_def)
  show ?case
  proof (cases "Some u0 = ex")
    case True
    from Cons.prems have op: "\<forall>c \<in> set (handles items). \<not> closed (n c)"
      by (simp add: handles_def)
    show ?thesis
    proof (cases "(u, ip, c) = x")
      case True
      with x \<open>Some u0 = ex\<close> c0 show ?thesis by (simp add: send_pass_other)
    next
      case False
      with Cons.prems have "(u, ip, c) \<in> set items" by simp
      from Cons.IH[OF op d this, of dis] \<open>Some u0 = ex\<close> x show ?thesis by simp
    qed
  next
    case False
    let ?n1 = "n(c0 := touched m (n c0))"
    from Cons.prems x have op0: "\<not> closed (n c0)" by (simp add: handles_def)
    have sa: "sendall c0 m n = (fault (peer (n c0)), ?n1)" using op0 by (simp add: sendall_open)
    from Cons.prems x have rest: "\<forall>c \<in> set (handles items). \<not> closed (?n1 c)"
      by (auto simp add: handles_def)
    obtain dis' where sp: "send_pass m ex (x # items) dis n = send_pass m ex items dis' ?n1"
      using x False sa by (cases "peer (n c0)") (simp_all add: fault_def)
    show ?thesis
    proof (cases "(u, ip, c) = x")
      case True
      with x have "c = c0" "u = u0" by simp_all
      with sp c0 False show ?thesis by (simp add: send_pass_other)
    next
      case ne: False
      with Cons.prems have mem: "(u, ip, c) \<in> set items" by simp
      then have "c \<in> set (handles items)" by (force simp: handles_def)
      with c0 have "c \<noteq> c0" by auto
      then have same: "?n1 c = n c" by simp
      have ih: "snd (snd (send_pass m ex items dis' ?n1)) c
                = (if Some u = ex then ?n1 c else touched m (?n1 c))"
        by (rule Cons.IH[where n = ?n1 and dis = dis', OF rest d mem])
      show ?thesis by (simp only: sp ih same)
    qed
  qed
qed


text \<open>The second loop of \<open>broadcast_message\<close>.\<close>

lemma remove_disconnected_clients:
  "clients (remove_disconnected dis s) = filter (\<lambda>x. fst x \<notin> set dis) (clients s)"
proof (induction dis arbitrary: s)
  case Nil
  then show ?case by simp
next
  case (Cons u dis)
  show ?case
  proof (cases "map_of (clients s) u")
    case None
    then have "u \<notin> fst ` set (clients s)" by (simp add: map_of_eq_None_iff)
    then have "filter (\<lambda>x. fst x \<notin> set (u # dis)) (clients s)
               = filter (\<lambda>x. fst x \<notin> set dis) (clients s)"
      by (intro filter_cong) auto
    with None Cons.IH[of s] show ?thesis by simp
  next
    case (Some v)
    obtain ip c where v: "v = (ip, c)" by (cases v) auto
    have "filter (\<lambda>x. fst x \<notin> set dis) (AList.delete u (clients s))
          = filter (\<lambda>x. fst x \<notin> set (u # dis)) (clients s)"
      by (auto simp: AList.delete_eq intro: filter_cong)
    with Some v Cons.IH[of "(close c s)\<lparr>clients := AList.delete u (clients s)\<rparr>"]
    show ?thesis by simp
  qed
qed

lemma remove_disconnected_frame:
  "chat_history (remove_disconnected dis s) = chat_history s
   \<and> running (remove_disconnected dis s) = running s
   \<and> peer (socks (remove_disconnected dis s) c) = peer (socks s c)
   \<and> outgoing (socks (remove_disconnected dis s) c) = outgoing (socks s c)
   \<and> received (socks (remove_disconnected dis s) c) = received (socks s c)"
proof (induction dis arbitrary: s)
  case Nil
  then show ?case by simp
next
  case (Cons u dis)
  show ?case
  proof (cases "map_of (clients s) u")
    case None
    with Cons.IH[of s] show ?thesis by simp
  next
    case (Some v)
    obtain ip c0 where v: "v = (ip, c0)" by (cases v) auto
    from Some v Cons.IH[of "(close c0 s)\<lparr>clients := AList.delete u (clients s)\<rparr>"]
    show ?thesis by (simp add: close_def)
  qed
qed

lemma remove_disconnected_closed:
  "closed (socks (remove_disconnected dis s) c)
   \<longleftrightarrow> closed (socks s c) \<or> (\<exists>u \<in> set dis. \<exists>ip. map_of (clients s) u = Some (ip, c))"
proof (induction dis arbitrary: s)
  case Nil
  then show ?case by simp
next
  case (Cons u dis)
  show ?case
  proof (cases "map_of (clients s) u")
    case None
    with Cons.IH[of s] show ?thesis by auto
  next
    case (Some v)
    obtain ip0 c0 where v: "v = (ip0, c0)" by (cases v) auto
    let ?s1 = "(close c0 s)\<lparr>clients := AList.delete u (clients s)\<rparr>"
    have ih: "closed (socks (remove_disconnected dis ?s1) c)
       \<longleftrightarrow> closed (socks ?s1 c) \<or> (\<exists>u' \<in> set dis. \<exists>ip. map_of (clients ?s1) u' = Some (ip, c))"
      by (rule Cons.IH)
    have step: "remove_disconnected (u # dis) s = remove_disconnected dis ?s1"
      using Some v by simp
    have c1: "closed (socks ?s1 c) \<longleftrightarrow> closed (socks s c) \<or> c = c0"
      by (simp add: close_def)
    have m1: "\<And>u' ip. map_of (clients ?s1) u' = Some (ip, c)
                \<longleftrightarrow> u' \<noteq> u \<and> map_of (clients s) u' = Some (ip, c)"
      by (simp add: AList.delete_conv')
    show ?thesis
      unfolding step ih c1 m1 using Some v by (auto; fastforce)
  qed
qed

lemma handles_delete_subset: "set (handles (AList.delete u al)) \<subseteq> set (handles al)"
  by (force simp: handles_def AList.delete_eq)

lemma map_of_handle: "map_of al u = Some (ip, c) \<Longrightarrow> c \<in> set (handles al)"
  by (force simp: handles_def dest: map_of_SomeD)

lemma remove_disconnected_other:
  "c \<notin> set (handles (clients s)) \<Longrightarrow> socks (remove_disconnected dis s) c = socks s c"
proof (induction dis arbitrary: s)
  case Nil
  then show ?case by simp
next
  case (Cons u dis)
  show ?case
  proof (cases "map_of (clients s) u")
    case None
    with Cons.IH[OF Cons.prems] show ?thesis by simp
  next
    case (Some v)
    obtain ip0 c0 where v: "v = (ip0, c0)" by (cases v) auto
    let ?s1 = "(close c0 s)\<lparr>clients := AList.delete u (clients s)\<rparr>"
    from Some v have "c0 \<in> set (handles (clients s))" by (auto dest: map_of_handle)
    with Cons.prems have ne: "c \<noteq> c0" by auto
    from Cons.prems handles_delete_subset[of u "clients s"]
    have "c \<notin> set (handles (clients ?s1))" by auto
    then have "socks (remove_disconnected dis ?s1) c = socks ?s1 c" by (rule Cons.IH)
    with ne Some v show ?thesis by (simp add: close_def)
  qed
qed


text \<open>\<open>broadcast_message\<close> on a well-formed registry.\<close>

lemma broadcast_unfold:
  assumes "registry_ok s"
  shows "broadcast_message m ex s =
     (None, remove_disconnected (map fst (filter (failed ex (socks s)) (clients s)))
              (s\<lparr>socks := snd (snd (send_pass m ex (clients s) [] (socks s)))\<rparr>))"
proof -
  from assms have op: "\<forall>c \<in> set (handles (clients s)). \<not> closed (socks s c)"
    by (simp add: registry_ok_def)
  obtain r dis n where sp: "send_pass m ex (clients s) [] (socks s) = (r, dis, n)"
    by (cases "send_pass m ex (clients s) [] (socks s)") auto
  from send_pass_open[OF op, of m ex "[]"] sp
  have "r = None" and "dis = map fst (filter (failed ex (socks s)) (clients s))"
    by simp_all
  with sp show ?thesis by (simp add: broadcast_message_def)
qed

lemma failed_names:
  assumes "distinct (map fst al)" and "x \<in> set al"
  shows "fst x \<in> set (map fst (filter P al)) \<longleftrightarrow> P x"
proof
  assume "fst x \<in> set (map fst (filter P al))"
  then obtain y where y: "y \<in> set al" "P y" "fst y = fst x" by auto
  with assms have "y = x" by (meson eq_key_imp_eq_value prod_eqI distinct_map inj_onD)
  with y show "P x" by simp
next
  assume "P x"
  with assms show "fst x \<in> set (map fst (filter P al))" by auto
qed

lemma broadcast_clients:
  assumes "registry_ok s"
  shows "clients (snd (broadcast_message m ex s))
         = filter (\<lambda>x. \<not> failed ex (socks s) x) (clients s)"
proof -
  from assms have d: "distinct (map fst (clients s))" by (simp add: registry_ok_def)
  have "filter (\<lambda>x. fst x \<notin> set (map fst (filter (failed ex (socks s)) (clients s)))) (clients s)
        = filter (\<lambda>x. \<not> failed ex (socks s) x) (clients s)"
    by (rule filter_cong[OF refl]) (simp only: failed_names[OF d])
  then show ?thesis
    by (simp add: broadcast_unfold[OF assms] remove_disconnected_clients)
qed

lemma broadcast_frame:
  assumes "registry_ok s"
  shows "fst (broadcast_message m ex s) = None"
    and "chat_history (snd (broadcast_message m ex s)) = chat_history s"
    and "running (snd (broadcast_message m ex s)) = running s"
    and "peer (socks (snd (broadcast_message m ex s)) c) = peer (socks s c)"
proof -
  from assms have op: "\<forall>c \<in> set (handles (clients s)). \<not> closed (socks s c)"
    by (simp add: registry_ok_def)
  show "fst (broadcast_message m ex s) = None"
    "chat_history (snd (broadcast_message m ex s)) = chat_history s"
    "running (snd (broadcast_message m ex s)) = running s"
    "peer (socks (snd (broadcast_message m ex s)) c) = peer (socks s c)"
    using send_pass_open[OF op, of m ex "[]"]
    by (simp_all add: broadcast_unfold[OF assms] remove_disconnected_frame)
qed

lemma broadcast_recipient:
  assumes "registry_ok s" and "(u, ip, c) \<in> set (clients s)"
  shows "outgoing (socks (snd (broadcast_message m ex s)) c)
           = (if Some u = ex then outgoing (socks s c) else outgoing (socks s c) @ [m])"
    and "received (socks (snd (broadcast_message m ex s)) c)
           = (if Some u \<noteq> ex \<and> peer (socks s c) = Up
              then received (socks s c) @ [m] else received (socks s c))"
    and "closed (socks (snd (broadcast_message m ex s)) c) \<longleftrightarrow> failed ex (socks s) (u, ip, c)"
proof -
  from assms have op: "\<forall>c \<in> set (handles (clients s)). \<not> closed (socks s c)"
    and dh: "distinct (handles (clients s))" and dk: "distinct (map fst (clients s))"
    by (simp_all add: registry_ok_def)
  let ?n = "snd (snd (send_pass m ex (clients s) [] (socks s)))"
  have each: "?n c = (if Some u = ex then socks s c else touched m (socks s c))"
    by (rule send_pass_each[OF op dh assms(2)])
  show "outgoing (socks (snd (broadcast_message m ex s)) c)
           = (if Some u = ex then outgoing (socks s c) else outgoing (socks s c) @ [m])"
    by (simp add: broadcast_unfold[OF assms(1)] remove_disconnected_frame each touched_def)
  show "received (socks (snd (broadcast_message m ex s)) c)
           = (if Some u \<noteq> ex \<and> peer (socks s c) = Up
              then received (socks s c) @ [m] else received (socks s c))"
    by (simp add: broadcast_unfold[OF assms(1)] remove_disconnected_frame each touched_def)
  from assms(2) have hc: "c \<in> set (handles (clients s))" by (force simp: handles_def)
  with op have nc: "\<not> closed (socks s c)" by simp
  have uniq: "\<And>u' ip'. map_of (clients s) u' = Some (ip', c) \<longleftrightarrow> u' = u \<and> ip' = ip"
  proof
    fix u' ip'
    assume "map_of (clients s) u' = Some (ip', c)"
    then have m: "(u', ip', c) \<in> set (clients s)" by (rule map_of_SomeD)
    from dh have "inj_on (\<lambda>(u, ip, c). c) (set (clients s))"
      by (simp add: handles_def distinct_map)
    from inj_onD[OF this _ m assms(2)] show "u' = u \<and> ip' = ip" by simp
  next
    fix u' ip'
    assume "u' = u \<and> ip' = ip"
    with dk assms(2) show "map_of (clients s) u' = Some (ip', c)" by (simp add: map_of_is_SomeI)
  qed
  have "u \<in> set (map fst (filter (failed ex (socks s)) (clients s)))
        \<longleftrightarrow> failed ex (socks s) (u, ip, c)"
    using failed_names[OF dk assms(2), of "failed ex (socks s)"] by simp
  then show "closed (socks (snd (broadcast_message m ex s)) c) \<longleftrightarrow> failed ex (socks s) (u, ip, c)"
    using nc
    by (simp add: broadcast_unfold[OF assms(1)] remove_disconnected_closed each uniq touched_def)
qed

lemma broadcast_other:
  "c \<notin> set (handles (clients s)) \<Longrightarrow> socks (snd (broadcast_message m ex s)) c = socks s c"
proof -
  assume c: "c \<notin> set (handles (clients s))"
  obtain r dis n where sp: "send_pass m ex (clients s) [] (socks s) = (r, dis, n)"
    by (cases "send_pass m ex (clients s) [] (socks s)") auto
  from send_pass_other[OF c, of m ex "[]" "socks s"] sp have n: "n c = socks s c" by simp
  show ?thesis
  proof (cases r)
    case None
    with sp n c show ?thesis
      by (simp add: broadcast_message_def remove_disconnected_other)
  next
    case (Some e)
    with sp n show ?thesis by (simp add: broadcast_message_def)
  qed
qed

lemma broadcast_subset:
  "set (clients (snd (broadcast_message m ex s))) \<subseteq> set (clients s)"
proof -
  obtain r dis n where sp: "send_pass m ex (clients s) [] (socks s) = (r, dis, n)"
    by (cases "send_pass m ex (clients s) [] (socks s)") auto
  then show ?thesis
    by (cases r) (auto simp: broadcast_message_def remove_disconnected_clients)
qed

section \<open>Splitting a line\<close>

lemma split_max_nonempty: "split_max sep n s \<noteq> []"
  by (cases n) simp_all

lemma split_max_length: "length (split_max sep n s) \<le> Suc n"
  by (induction n arbitrary: s) simp_all

lemma take_drop_sep:
  assumes "sep \<in> set s"
  shows "takeWhile (\<lambda>c. c \<noteq> sep) s @ sep # tl (dropWhile (\<lambda>c. c \<noteq> sep) s) = s"
proof -
  from assms have ne: "dropWhile (\<lambda>c. c \<noteq> sep) s \<noteq> []" by (simp add: dropWhile_eq_Nil_conv) 
  then have "hd (dropWhile (\<lambda>c. c \<noteq> sep) s) = sep" using hd_dropWhile[OF ne] by simp
  with ne have "dropWhile (\<lambda>c. c \<noteq> sep) s = sep # tl (dropWhile (\<lambda>c. c \<noteq> sep) s)"
    by (cases "dropWhile (\<lambda>c. c \<noteq> sep) s") simp_all
  then have "takeWhile (\<lambda>c. c \<noteq> sep) s @ sep # tl (dropWhile (\<lambda>c. c \<noteq> sep) s)
             = takeWhile (\<lambda>c. c \<noteq> sep) s @ dropWhile (\<lambda>c. c \<noteq> sep) s" by simp
  then show ?thesis by simp
qed

lemma join_Cons: "xs \<noteq> [] \<Longrightarrow> join sep (x # xs) = x @ sep @ join sep xs"
  by (cases xs) simp_all

lemma split_max_join: "join [sep] (split_max sep n s) = s"
proof (induction n arbitrary: s)
  case 0
  then show ?case by simp
next
  case (Suc n)
  show ?case
  proof (cases "sep \<in> set s")
    case True
    then show ?thesis
      using Suc.IH[of "tl (dropWhile (\<lambda>c. c \<noteq> sep) s)"] take_drop_sep[OF True]
      by (simp add: join_Cons split_max_nonempty)
  next
    case False
    then show ?thesis by simp
  qed
qed

lemma split_max_butlast: "t \<in> set (butlast (split_max sep n s)) \<Longrightarrow> sep \<notin> set t"
proof (induction n arbitrary: s)
  case 0
  then show ?case by simp
next
  case (Suc n)
  show ?case
  proof (cases "sep \<in> set s")
    case True
    with Suc.prems have "t = takeWhile (\<lambda>c. c \<noteq> sep) s
        \<or> t \<in> set (butlast (split_max sep n (tl (dropWhile (\<lambda>c. c \<noteq> sep) s))))"
      by (simp add: split_max_nonempty)
    then show ?thesis
    proof
      assume "t = takeWhile (\<lambda>c. c \<noteq> sep) s"
      then show ?thesis by (auto dest: set_takeWhileD)
    next
      assume "t \<in> set (butlast (split_max sep n (tl (dropWhile (\<lambda>c. c \<noteq> sep) s))))"
      then show ?thesis by (rule Suc.IH)
    qed
  next
    case False
    with Suc.prems show ?thesis by simp
  qed
qed

lemma split_send:
  assumes "CHR '' '' \<notin> set A"
  shows "split_max (CHR '' '') 2 (''send '' @ A @ '' '' @ m) = [''send'', A, m]"
proof -
  have tw: "takeWhile (\<lambda>c. c \<noteq> CHR '' '') (A @ CHR '' '' # m) = A"
    using assms by (subst takeWhile_append2) auto
  have dw: "dropWhile (\<lambda>c. c \<noteq> CHR '' '') (A @ CHR '' '' # m) = CHR '' '' # m"
    using assms by (subst dropWhile_append2) auto
  show ?thesis
    by (simp add: numeral_2_eq_2 tw dw)
qed

lemma split_send_two:
  assumes "prefix ''send '' data" and "length (split_max (CHR '' '') 2 data) < 3"
  shows "\<exists>x. split_max (CHR '' '') 2 data = [''send'', x]"
proof -
  from assms(1) obtain r where d: "data = ''send '' @ r" by (auto simp: prefix_def)
  show ?thesis
  proof (cases "CHR '' '' \<in> set r")
    case True
    with d assms(2) show ?thesis by (simp add: numeral_2_eq_2)
  next
    case False
    with d show ?thesis by (simp add: numeral_2_eq_2)
  qed
qed

lemma replace_first_prefix: "prefix old s \<Longrightarrow> replace_first old new s = new @ drop (length old) s"
  by (cases s) auto

lemma get_help_lists:
  "sublist ''list'' get_help" "sublist ''broadcast <msg>'' get_help"
  "sublist ''send <username> <msg>'' get_help" "sublist ''exit'' get_help"
  by code_simp+

section \<open>The message log\<close>

text \<open>
  C9. For every sender label and text, \<open>store_message\<close> returns the entry formatted from the
  timestamp, the sender and the text, and the history after the call is the history before
  it with exactly that entry appended: the earlier entries are still there, in place, and
  nothing else of the server changes.
\<close>

theorem store_message_appends:
  "fst (store_message sender message timestamp s)
     = ''['' @ timestamp @ ''] '' @ sender @ '': '' @ message
   \<and> chat_history (snd (store_message sender message timestamp s))
     = chat_history s @ [fst (store_message sender message timestamp s)]
   \<and> take (length (chat_history s)) (chat_history (snd (store_message sender message timestamp s)))
     = chat_history s
   \<and> length (chat_history (snd (store_message sender message timestamp s)))
     = Suc (length (chat_history s))
   \<and> clients (snd (store_message sender message timestamp s)) = clients s
   \<and> running (snd (store_message sender message timestamp s)) = running s
   \<and> socks (snd (store_message sender message timestamp s)) = socks s"
  by (simp add: store_message_def Let_def)

section \<open>Broadcast\<close>

lemma registry_ok_lobby: "registry_ok lobby"
  by (simp add: registry_ok_def lobby_def handles_def idle_def)

text \<open>The command \<open>broadcast <msg>\<close> calls \<open>broadcast_message\<close> with the sender excluded.\<close>

lemma dispatch_broadcast:
  assumes "prefix ''broadcast '' data"
  shows "dispatch U c data s =
     (case broadcast_message (''[BROADCAST from '' @ U @ ''] '' @ drop (length ''broadcast '') data) (Some U) s of
        (None, s') \<Rightarrow> (Next, s')
      | (Some e, s') \<Rightarrow> (inner_except e, s'))"
proof -
  from assms have nl: "data \<noteq> ''list''" by (auto simp: prefix_def)
  have rp: "replace_first ''broadcast '' [] data = drop (length ''broadcast '') data"
    by (simp only: replace_first_prefix[OF assms] append_Nil)
  show ?thesis using nl assms unfolding dispatch_def rp Let_def by simp
qed

text \<open>
  C1. Let the registry be well formed and \<open>U\<close> be registered. \<open>broadcast_message\<close> of
  \<open>m\<close> with \<open>exclude_username = U\<close> returns normally; for every session of the registry
  whose username is not \<open>U\<close>, \<open>sendall\<close> is called on its handle with \<open>m\<close>, once, and \<open>m\<close>
  arrives where the peer is up; nothing is sent to the session of \<open>U\<close>, whose socket is
  left as it was. A line of \<open>U\<close> that starts with \<open>broadcast \<close> is such a call, for the rest
  of the line behind \<open>[BROADCAST from U] \<close>, and the loop goes on after it.
\<close>

theorem broadcast_excludes_sender:
  assumes "registry_ok s" and "map_of (clients s) U = Some (ipU, cU)"
  shows "fst (broadcast_message m (Some U) s) = None
       \<and> (\<forall>(u, ip, c) \<in> set (clients s). u \<noteq> U \<longrightarrow>
            outgoing (socks (snd (broadcast_message m (Some U) s)) c) = outgoing (socks s c) @ [m]
            \<and> (peer (socks s c) = Up \<longrightarrow>
                 received (socks (snd (broadcast_message m (Some U) s)) c)
                 = received (socks s c) @ [m]))
       \<and> socks (snd (broadcast_message m (Some U) s)) cU = socks s cU
       \<and> (prefix ''broadcast '' data \<longrightarrow>
            dispatch U c data s
            = (Next, snd (broadcast_message (''[BROADCAST from '' @ U @ ''] '' @ drop (length ''broadcast '') data)
                            (Some U) s)))"
proof -
  let ?s' = "snd (broadcast_message m (Some U) s)"
  from assms(2) have mem: "(U, ipU, cU) \<in> set (clients s)" by (rule map_of_SomeD)
  from mem have "cU \<in> set (handles (clients s))" by (force simp: handles_def)
  with assms(1) have nc: "\<not> closed (socks s cU)" by (simp add: registry_ok_def)
  have own: "socks ?s' cU = socks s cU"
    using broadcast_recipient[OF assms(1) mem, of m "Some U"]
      broadcast_frame(4)[OF assms(1), of m "Some U" cU] nc
    by (simp add: failed_def sock.equality)
  have others: "\<forall>(u, ip, c) \<in> set (clients s). u \<noteq> U \<longrightarrow>
            outgoing (socks ?s' c) = outgoing (socks s c) @ [m]
            \<and> (peer (socks s c) = Up \<longrightarrow> received (socks ?s' c) = received (socks s c) @ [m])"
    using broadcast_recipient(1,2)[OF assms(1), of _ _ _ m "Some U"] by auto
  have cmd: "dispatch U c data s
            = (Next, snd (broadcast_message (''[BROADCAST from '' @ U @ ''] '' @ drop (length ''broadcast '') data)
                            (Some U) s))"
    if p: "prefix ''broadcast '' data"
  proof -
    let ?bm = "''[BROADCAST from '' @ U @ ''] '' @ drop (length ''broadcast '') data"
    obtain r s2 where b: "broadcast_message ?bm (Some U) s = (r, s2)"
      by (cases "broadcast_message ?bm (Some U) s") auto
    from broadcast_frame(1)[OF assms(1), of ?bm "Some U"] b have "r = None" by simp
    with b show ?thesis by (simp add: dispatch_broadcast[OF p])
  qed
  from broadcast_frame(1)[OF assms(1)] others own cmd show ?thesis by blast
qed

theorem broadcast_excludes_sender_witness:
  "registry_ok lobby \<and> map_of (clients lobby) ''alice'' = Some (''10.0.0.1'', 7)
   \<and> fst (broadcast_message ''hi'' (Some ''alice'') lobby) = None
   \<and> outgoing (socks (snd (broadcast_message ''hi'' (Some ''alice'') lobby)) 8) = [''hi'']
   \<and> outgoing (socks (snd (broadcast_message ''hi'' (Some ''alice'') lobby)) 9) = [''hi'']
   \<and> received (socks (snd (broadcast_message ''hi'' (Some ''alice'') lobby)) 9) = [''hi'']
   \<and> socks (snd (broadcast_message ''hi'' (Some ''alice'') lobby)) 7 = idle
   \<and> prefix ''broadcast '' ''broadcast hi all''
   \<and> dispatch ''alice'' 7 ''broadcast hi all'' lobby
       = (Next, snd (broadcast_message ''[BROADCAST from alice] hi all'' (Some ''alice'') lobby))"
proof -
  have h1: "registry_ok lobby" by (rule registry_ok_lobby)
  have h2: "map_of (clients lobby) ''alice'' = Some (''10.0.0.1'', 7)" by (simp add: lobby_def)
  have h3: "prefix ''broadcast '' ''broadcast hi all''" by simp
  have bob: "(''bob'', ''10.0.0.2'', 8) \<in> set (clients lobby)"
    and carol: "(''carol'', ''10.0.0.3'', 9) \<in> set (clients lobby)"
    by (simp_all add: lobby_def)
  have sk: "socks lobby 7 = idle" "socks lobby 9 = idle" "socks lobby 8 = idle\<lparr>peer := PeerReset\<rparr>"
    by (simp_all add: lobby_def)
  note t = broadcast_excludes_sender[OF h1 h2, of "''hi''" "''broadcast hi all''" 7]
  from t have a: "fst (broadcast_message ''hi'' (Some ''alice'') lobby) = None" by blast
  from t bob have b: "outgoing (socks (snd (broadcast_message ''hi'' (Some ''alice'') lobby)) 8)
                      = outgoing (socks lobby 8) @ [''hi'']" by fastforce
  from t carol have c: "outgoing (socks (snd (broadcast_message ''hi'' (Some ''alice'') lobby)) 9)
                      = outgoing (socks lobby 9) @ [''hi'']" by fastforce
  from t carol sk have d: "received (socks (snd (broadcast_message ''hi'' (Some ''alice'') lobby)) 9)
                      = received (socks lobby 9) @ [''hi'']" by (fastforce simp: idle_def)
  from t have e: "socks (snd (broadcast_message ''hi'' (Some ''alice'') lobby)) 7 = socks lobby 7"
    by blast
  from t h3 have f: "dispatch ''alice'' 7 ''broadcast hi all'' lobby
       = (Next, snd (broadcast_message (''[BROADCAST from '' @ ''alice'' @ ''] '' @ drop (length ''broadcast '') ''broadcast hi all'')
                       (Some ''alice'') lobby))" by blast
  from h1 h2 h3 a b c d e f show ?thesis by (simp add: sk idle_def)
qed

text \<open>
  C3. On a well-formed registry, one call of \<open>broadcast_message\<close> first runs the sending
  loop over the whole registry: it does not raise, it closes nothing, and it records, in
  registry order, exactly the users whose delivery failed with a reset or a broken pipe.
  Only then are the recorded users removed: the result is \<open>remove_disconnected\<close> of that
  record, applied after the pass. Afterwards a session whose delivery failed is no longer in
  the registry, its handle is closed and it has not received the message; every other
  session is still registered and not closed, and has received the message unless it is the
  excluded one, wherever it stands in the registry.
\<close>

theorem broadcast_failures_removed_after_pass:
  assumes "registry_ok s"
  shows "fst (send_pass m ex (clients s) [] (socks s)) = None
       \<and> fst (snd (send_pass m ex (clients s) [] (socks s)))
           = map fst (filter (failed ex (socks s)) (clients s))
       \<and> (\<forall>c. closed (snd (snd (send_pass m ex (clients s) [] (socks s))) c) = closed (socks s c))
       \<and> broadcast_message m ex s =
           (None, remove_disconnected (fst (snd (send_pass m ex (clients s) [] (socks s))))
                    (s\<lparr>socks := snd (snd (send_pass m ex (clients s) [] (socks s)))\<rparr>))
       \<and> clients (snd (broadcast_message m ex s))
           = filter (\<lambda>x. \<not> failed ex (socks s) x) (clients s)
       \<and> (\<forall>(u, ip, c) \<in> set (clients s).
            if failed ex (socks s) (u, ip, c)
            then (u, ip, c) \<notin> set (clients (snd (broadcast_message m ex s)))
                 \<and> closed (socks (snd (broadcast_message m ex s)) c)
                 \<and> received (socks (snd (broadcast_message m ex s)) c) = received (socks s c)
            else (u, ip, c) \<in> set (clients (snd (broadcast_message m ex s)))
                 \<and> \<not> closed (socks (snd (broadcast_message m ex s)) c)
                 \<and> (Some u \<noteq> ex \<longrightarrow>
                      received (socks (snd (broadcast_message m ex s)) c)
                      = received (socks s c) @ [m]))"
proof -
  from assms have op: "\<forall>c \<in> set (handles (clients s)). \<not> closed (socks s c)"
    by (simp add: registry_ok_def)
  note sp = send_pass_open[OF op, of m ex "[]"]
  have a: "fst (send_pass m ex (clients s) [] (socks s)) = None"
    and b: "fst (snd (send_pass m ex (clients s) [] (socks s)))
           = map fst (filter (failed ex (socks s)) (clients s))"
    and c: "\<forall>c. closed (snd (snd (send_pass m ex (clients s) [] (socks s))) c) = closed (socks s c)"
    using sp by simp_all
  have d: "broadcast_message m ex s =
           (None, remove_disconnected (fst (snd (send_pass m ex (clients s) [] (socks s))))
                    (s\<lparr>socks := snd (snd (send_pass m ex (clients s) [] (socks s)))\<rparr>))"
    by (simp only: b broadcast_unfold[OF assms])
  have e: "clients (snd (broadcast_message m ex s))
           = filter (\<lambda>x. \<not> failed ex (socks s) x) (clients s)"
    by (rule broadcast_clients[OF assms])
  have f: "\<forall>(u, ip, c) \<in> set (clients s).
            if failed ex (socks s) (u, ip, c)
            then (u, ip, c) \<notin> set (clients (snd (broadcast_message m ex s)))
                 \<and> closed (socks (snd (broadcast_message m ex s)) c)
                 \<and> received (socks (snd (broadcast_message m ex s)) c) = received (socks s c)
            else (u, ip, c) \<in> set (clients (snd (broadcast_message m ex s)))
                 \<and> \<not> closed (socks (snd (broadcast_message m ex s)) c)
                 \<and> (Some u \<noteq> ex \<longrightarrow>
                      received (socks (snd (broadcast_message m ex s)) c)
                      = received (socks s c) @ [m])"
  proof (clarify)
    fix u ip c0
    assume mem: "(u, ip, c0) \<in> set (clients s)"
    note r = broadcast_recipient[OF assms mem, of m ex]
    show "if failed ex (socks s) (u, ip, c0)
            then (u, ip, c0) \<notin> set (clients (snd (broadcast_message m ex s)))
                 \<and> closed (socks (snd (broadcast_message m ex s)) c0)
                 \<and> received (socks (snd (broadcast_message m ex s)) c0) = received (socks s c0)
            else (u, ip, c0) \<in> set (clients (snd (broadcast_message m ex s)))
                 \<and> \<not> closed (socks (snd (broadcast_message m ex s)) c0)
                 \<and> (Some u \<noteq> ex \<longrightarrow>
                      received (socks (snd (broadcast_message m ex s)) c0)
                      = received (socks s c0) @ [m])"
    proof (cases "failed ex (socks s) (u, ip, c0)")
      case True
      with r mem show ?thesis by (simp add: e) (simp add: failed_def)
    next
      case False
      with r mem show ?thesis by (simp add: e) (auto simp add: failed_def)
    qed
  qed
  from a b c d e f show ?thesis by blast
qed

theorem broadcast_failures_removed_after_pass_witness:
  "registry_ok lobby
   \<and> fst (snd (send_pass ''hi'' None (clients lobby) [] (socks lobby))) = [''bob'']
   \<and> clients (snd (broadcast_message ''hi'' None lobby))
       = [(''alice'', ''10.0.0.1'', 7), (''carol'', ''10.0.0.3'', 9)]
   \<and> closed (socks (snd (broadcast_message ''hi'' None lobby)) 8)
   \<and> received (socks (snd (broadcast_message ''hi'' None lobby)) 8) = []
   \<and> received (socks (snd (broadcast_message ''hi'' None lobby)) 9) = [''hi'']"
proof -
  have h1: "registry_ok lobby" by (rule registry_ok_lobby)
  have cl: "clients lobby = [(''alice'', ''10.0.0.1'', 7), (''bob'', ''10.0.0.2'', 8),
                             (''carol'', ''10.0.0.3'', 9)]" by (simp add: lobby_def)
  have bob: "(''bob'', ''10.0.0.2'', 8) \<in> set (clients lobby)"
    and carol: "(''carol'', ''10.0.0.3'', 9) \<in> set (clients lobby)"
    by (simp_all add: lobby_def)
  have sk: "socks lobby 7 = idle" "socks lobby 9 = idle" "socks lobby 8 = idle\<lparr>peer := PeerReset\<rparr>"
    by (simp_all add: lobby_def)
  have fl: "filter (failed None (socks lobby)) (clients lobby) = [(''bob'', ''10.0.0.2'', 8)]"
    "filter (\<lambda>x. \<not> failed None (socks lobby) x) (clients lobby)
       = [(''alice'', ''10.0.0.1'', 7), (''carol'', ''10.0.0.3'', 9)]"
    by (simp_all add: cl sk failed_def idle_def)
  have fb: "failed None (socks lobby) (''bob'', ''10.0.0.2'', 8)"
    and fc: "\<not> failed None (socks lobby) (''carol'', ''10.0.0.3'', 9)"
    by (simp_all add: sk failed_def idle_def)
  note t = broadcast_failures_removed_after_pass[OF h1, of "''hi''" None]
  from t have a: "fst (snd (send_pass ''hi'' None (clients lobby) [] (socks lobby)))
                  = map fst (filter (failed None (socks lobby)) (clients lobby))" by blast
  from t have b: "clients (snd (broadcast_message ''hi'' None lobby))
                  = filter (\<lambda>x. \<not> failed None (socks lobby) x) (clients lobby)" by blast
  from t bob fb have c: "closed (socks (snd (broadcast_message ''hi'' None lobby)) 8)
       \<and> received (socks (snd (broadcast_message ''hi'' None lobby)) 8) = received (socks lobby 8)"
    by fastforce
  from t carol fc have d: "received (socks (snd (broadcast_message ''hi'' None lobby)) 9)
       = received (socks lobby 9) @ [''hi'']"
    by fastforce
  from h1 a b c d show ?thesis by (simp add: fl sk idle_def)
qed

section \<open>The command interpreter\<close>

lemma sendall_healthy:
  "\<not> closed (n c) \<Longrightarrow> peer (n c) = Up \<Longrightarrow>
   sendall c m n = (None, n(c := (n c)\<lparr>outgoing := outgoing (n c) @ [m],
                                       received := received (n c) @ [m]\<rparr>))"
  by (simp add: sendall_def Let_def)

lemma sendall_facts:
  "outgoing (snd (sendall c m n) c) = outgoing (n c) @ [m]"
  "received (snd (sendall c m n) c)
     = (if \<not> closed (n c) \<and> peer (n c) = Up then received (n c) @ [m] else received (n c))"
  "peer (snd (sendall c m n) c') = peer (n c')"
  "closed (snd (sendall c m n) c') = closed (n c')"
  "c' \<noteq> c \<Longrightarrow> snd (sendall c m n) c' = n c'"
  by (simp_all add: sendall_def Let_def split: link.splits)

lemma reply_facts:
  "clients (snd (reply c m s)) = clients s"
  "chat_history (snd (reply c m s)) = chat_history s"
  "running (snd (reply c m s)) = running s"
  "socks (snd (reply c m s)) = snd (sendall c m (socks s))"
  by (simp_all add: reply_def split: prod.splits option.splits)

lemma reply_healthy:
  "\<not> closed (socks s c) \<Longrightarrow> peer (socks s c) = Up \<Longrightarrow> fst (reply c m s) = Next"
  by (simp add: reply_def sendall_healthy)

lemma reply_open:
  "\<not> closed (socks s c) \<Longrightarrow> fst (reply c m s) \<noteq> Raised e"
  by (cases "peer (socks s c)") (simp_all add: reply_def sendall_open fault_def)

lemma dispatch_send:
  assumes "CHR '' '' \<notin> set A"
  shows "dispatch B c (''send '' @ A @ '' '' @ m) s =
     (case map_of (clients s) A of
        Some (ip, t_conn) \<Rightarrow>
          (case sendall t_conn (''[Private from '' @ B @ ''] '' @ m) (socks s) of
             (None, n) \<Rightarrow> (Next, s\<lparr>socks := n\<rparr>)
           | (Some e, n) \<Rightarrow>
               if e = ConnectionResetError \<or> e = BrokenPipeError
               then reply c (''User '' @ A @ '' is not connected.'') (s\<lparr>socks := n\<rparr>)
               else (inner_except e, s\<lparr>socks := n\<rparr>))
      | None \<Rightarrow> reply c (''User '' @ A @ '' not found.'') s)"
  using split_send[OF assms, of m]
  by (simp add: dispatch_def split: option.splits prod.splits)

lemma serve_recv:
  "strip raw \<noteq> [] \<Longrightarrow>
   serve B ip c (Recv raw) t s
   = dispatch B c (strip raw)
       (s\<lparr>chat_history := chat_history s @ [''['' @ t @ ''] '' @ (B @ ''@'' @ ip) @ '': '' @ strip raw]\<rparr>)"
  by (simp add: serve_def store_message_def Let_def)

lemma dispatch_help:
  assumes "data \<noteq> ''list''" and "\<not> prefix ''broadcast '' data" and "\<not> prefix ''send '' data"
    and "data \<noteq> ''exit''"
  shows "dispatch U c data s = reply c get_help s"
  using assms by (simp add: dispatch_def)

lemma lobby_facts:
  "running lobby"
  "map_of (clients lobby) ''alice'' = Some (''10.0.0.1'', 7)"
  "map_of (clients lobby) ''bob'' = Some (''10.0.0.2'', 8)"
  "map_of (clients lobby) ''carol'' = Some (''10.0.0.3'', 9)"
  "map_of (clients lobby) ''dave'' = None"
  "socks lobby 7 = idle" "socks lobby 8 = idle\<lparr>peer := PeerReset\<rparr>" "socks lobby 9 = idle"
  by (simp_all add: lobby_def)

text \<open>
  C2. Let the line read from user \<open>B\<close> be, after \<open>strip\<close>, \<open>send A m\<close> with \<open>A\<close> the token
  between the first two spaces. If \<open>A\<close> is a key of the registry and its connection is open
  with the peer up, the loop goes on, exactly one payload is handed to \<open>sendall\<close> on the
  handle of \<open>A\<close> and arrives, namely \<open>[Private from B] m\<close>, and every other socket, the
  registry and the running flag are as before. If \<open>A\<close> is not a key, the reply
  \<open>User A not found.\<close> is written to the connection of \<open>B\<close> (and arrives when that
  connection is open with the peer up), and every other socket, the registry and the running
  flag are as before.
\<close>

theorem private_send_delivery:
  assumes "strip raw = ''send '' @ A @ '' '' @ m" and "CHR '' '' \<notin> set A"
  shows "(map_of (clients s) A = Some (ipA, cA) \<and> \<not> closed (socks s cA) \<and> peer (socks s cA) = Up
          \<longrightarrow> fst (serve B ip c (Recv raw) t s) = Next
            \<and> clients (snd (serve B ip c (Recv raw) t s)) = clients s
            \<and> running (snd (serve B ip c (Recv raw) t s)) = running s
            \<and> outgoing (socks (snd (serve B ip c (Recv raw) t s)) cA)
                = outgoing (socks s cA) @ [''[Private from '' @ B @ ''] '' @ m]
            \<and> received (socks (snd (serve B ip c (Recv raw) t s)) cA)
                = received (socks s cA) @ [''[Private from '' @ B @ ''] '' @ m]
            \<and> (\<forall>c'. c' \<noteq> cA \<longrightarrow> socks (snd (serve B ip c (Recv raw) t s)) c' = socks s c'))
       \<and> (map_of (clients s) A = None
          \<longrightarrow> clients (snd (serve B ip c (Recv raw) t s)) = clients s
            \<and> running (snd (serve B ip c (Recv raw) t s)) = running s
            \<and> outgoing (socks (snd (serve B ip c (Recv raw) t s)) c)
                = outgoing (socks s c) @ [''User '' @ A @ '' not found.'']
            \<and> (\<not> closed (socks s c) \<and> peer (socks s c) = Up
                 \<longrightarrow> fst (serve B ip c (Recv raw) t s) = Next
                   \<and> received (socks (snd (serve B ip c (Recv raw) t s)) c)
                       = received (socks s c) @ [''User '' @ A @ '' not found.''])
            \<and> (\<forall>c'. c' \<noteq> c \<longrightarrow> socks (snd (serve B ip c (Recv raw) t s)) c' = socks s c'))"
proof -
  let ?s1 = "s\<lparr>chat_history := chat_history s @ [''['' @ t @ ''] '' @ (B @ ''@'' @ ip) @ '': '' @ strip raw]\<rparr>"
  have sv: "serve B ip c (Recv raw) t s = dispatch B c (''send '' @ A @ '' '' @ m) ?s1"
    using serve_recv[of raw B ip c t s] assms(1) by simp
  note ds = dispatch_send[OF assms(2), of B c m ?s1]
  have found: "fst (serve B ip c (Recv raw) t s) = Next
            \<and> clients (snd (serve B ip c (Recv raw) t s)) = clients s
            \<and> running (snd (serve B ip c (Recv raw) t s)) = running s
            \<and> outgoing (socks (snd (serve B ip c (Recv raw) t s)) cA)
                = outgoing (socks s cA) @ [''[Private from '' @ B @ ''] '' @ m]
            \<and> received (socks (snd (serve B ip c (Recv raw) t s)) cA)
                = received (socks s cA) @ [''[Private from '' @ B @ ''] '' @ m]
            \<and> (\<forall>c'. c' \<noteq> cA \<longrightarrow> socks (snd (serve B ip c (Recv raw) t s)) c' = socks s c')"
    if "map_of (clients s) A = Some (ipA, cA)" "\<not> closed (socks s cA)" "peer (socks s cA) = Up"
    using that unfolding sv ds by (simp add: sendall_healthy)
  have missing: "clients (snd (serve B ip c (Recv raw) t s)) = clients s
            \<and> running (snd (serve B ip c (Recv raw) t s)) = running s
            \<and> outgoing (socks (snd (serve B ip c (Recv raw) t s)) c)
                = outgoing (socks s c) @ [''User '' @ A @ '' not found.'']
            \<and> (\<not> closed (socks s c) \<and> peer (socks s c) = Up
                 \<longrightarrow> fst (serve B ip c (Recv raw) t s) = Next
                   \<and> received (socks (snd (serve B ip c (Recv raw) t s)) c)
                       = received (socks s c) @ [''User '' @ A @ '' not found.''])
            \<and> (\<forall>c'. c' \<noteq> c \<longrightarrow> socks (snd (serve B ip c (Recv raw) t s)) c' = socks s c')"
    if "map_of (clients s) A = None"
    using that unfolding sv ds by (simp add: reply_facts sendall_facts reply_healthy)
  from found missing show ?thesis by blast
qed

theorem private_send_delivery_witness:
  "strip ''send carol hi there\<newline>'' = ''send '' @ ''carol'' @ '' '' @ ''hi there''
   \<and> CHR '' '' \<notin> set ''carol''
   \<and> map_of (clients lobby) ''carol'' = Some (''10.0.0.3'', 9)
   \<and> fst (serve ''alice'' ''10.0.0.1'' 7 (Recv ''send carol hi there\<newline>'') ''T'' lobby) = Next
   \<and> received (socks (snd (serve ''alice'' ''10.0.0.1'' 7 (Recv ''send carol hi there\<newline>'')
                              ''T'' lobby)) 9)
       = [''[Private from alice] hi there'']
   \<and> strip ''send dave yo'' = ''send '' @ ''dave'' @ '' '' @ ''yo''
   \<and> map_of (clients lobby) ''dave'' = None
   \<and> received (socks (snd (serve ''alice'' ''10.0.0.1'' 7 (Recv ''send dave yo'') ''T'' lobby)) 7)
       = [''User dave not found.'']
   \<and> socks (snd (serve ''alice'' ''10.0.0.1'' 7 (Recv ''send dave yo'') ''T'' lobby)) 9
       = socks lobby 9"
proof -
  have h1: "strip ''send carol hi there\<newline>'' = ''send '' @ ''carol'' @ '' '' @ ''hi there''"
    by code_simp
  have h2: "CHR '' '' \<notin> set ''carol''" by simp
  have g1: "strip ''send dave yo'' = ''send '' @ ''dave'' @ '' '' @ ''yo''" by code_simp
  have g2: "CHR '' '' \<notin> set ''dave''" by simp
  note t1 = private_send_delivery[OF h1 h2, of lobby "''10.0.0.3''" 9 "''alice''" "''10.0.0.1''" 7 "''T''"]
  note t2 = private_send_delivery[OF g1 g2, of lobby "''10.0.0.3''" 9 "''alice''" "''10.0.0.1''" 7 "''T''"]
  from t1 have a: "fst (serve ''alice'' ''10.0.0.1'' 7 (Recv ''send carol hi there\<newline>'') ''T'' lobby) = Next
      \<and> received (socks (snd (serve ''alice'' ''10.0.0.1'' 7 (Recv ''send carol hi there\<newline>'')
                              ''T'' lobby)) 9)
       = received (socks lobby 9) @ [''[Private from '' @ ''alice'' @ ''] '' @ ''hi there'']"
    by (simp add: lobby_facts idle_def)
  from t2 have b: "received (socks (snd (serve ''alice'' ''10.0.0.1'' 7 (Recv ''send dave yo'') ''T'' lobby)) 7)
       = received (socks lobby 7) @ [''User '' @ ''dave'' @ '' not found.'']
     \<and> socks (snd (serve ''alice'' ''10.0.0.1'' 7 (Recv ''send dave yo'') ''T'' lobby)) 9
       = socks lobby 9"
    by (simp add: lobby_facts idle_def)
  from h1 h2 g1 a b show ?thesis by (simp add: lobby_facts idle_def)
qed

text \<open>
  C10. Let the command be \<open>send A m\<close> with \<open>A\<close> registered, and let the write to the
  connection of \<open>A\<close> raise a reset or a broken pipe. Then the registry, the history and the
  running flag are unchanged, \<open>A\<close> is still registered with the same handle, no handle is
  closed, \<open>A\<close> receives nothing, no connection other than the sender's receives anything,
  and every socket other than the sender's and the target's is left as it was. When the
  sender's connection is open with the peer up, the loop goes on and the sender receives
  \<open>User A is not connected.\<close> The statement is about \<open>dispatch\<close>, the command chain that
  follows the logging of the line.
\<close>

theorem private_send_failure_keeps_target:
  assumes "CHR '' '' \<notin> set A" and "map_of (clients s) A = Some (ipA, cA)"
    and "\<not> closed (socks s cA)" and "peer (socks s cA) \<noteq> Up"
  shows "clients (snd (dispatch B c (''send '' @ A @ '' '' @ m) s)) = clients s
       \<and> chat_history (snd (dispatch B c (''send '' @ A @ '' '' @ m) s)) = chat_history s
       \<and> running (snd (dispatch B c (''send '' @ A @ '' '' @ m) s)) = running s
       \<and> map_of (clients (snd (dispatch B c (''send '' @ A @ '' '' @ m) s))) A = Some (ipA, cA)
       \<and> (\<forall>c'. closed (socks (snd (dispatch B c (''send '' @ A @ '' '' @ m) s)) c')
                 = closed (socks s c'))
       \<and> received (socks (snd (dispatch B c (''send '' @ A @ '' '' @ m) s)) cA)
           = received (socks s cA)
       \<and> (\<forall>c'. c' \<noteq> c \<longrightarrow>
             received (socks (snd (dispatch B c (''send '' @ A @ '' '' @ m) s)) c')
             = received (socks s c'))
       \<and> (\<forall>c'. c' \<noteq> c \<and> c' \<noteq> cA \<longrightarrow>
             socks (snd (dispatch B c (''send '' @ A @ '' '' @ m) s)) c' = socks s c')
       \<and> (\<not> closed (socks s c) \<and> peer (socks s c) = Up \<longrightarrow>
             fst (dispatch B c (''send '' @ A @ '' '' @ m) s) = Next
             \<and> received (socks (snd (dispatch B c (''send '' @ A @ '' '' @ m) s)) c)
                 = received (socks s c) @ [''User '' @ A @ '' is not connected.''])"
proof -
  let ?pm = "''[Private from '' @ B @ ''] '' @ m"
  let ?n1 = "(socks s)(cA := touched ?pm (socks s cA))"
  let ?rm = "''User '' @ A @ '' is not connected.''"
  have sa: "sendall cA ?pm (socks s) = (fault (peer (socks s cA)), ?n1)"
    using assms(3) by (simp add: sendall_open)
  from assms(4) obtain e where e: "fault (peer (socks s cA)) = Some e"
    and e': "e = ConnectionResetError \<or> e = BrokenPipeError"
    by (cases "peer (socks s cA)") (simp_all add: fault_def)
  have d: "dispatch B c (''send '' @ A @ '' '' @ m) s = reply c ?rm (s\<lparr>socks := ?n1\<rparr>)"
    unfolding dispatch_send[OF assms(1)] using assms(2) sa e e' by auto
  have t1: "received (touched ?pm (socks s cA)) = received (socks s cA)"
    using assms(4) by (simp add: touched_def)
  show ?thesis
    unfolding d using assms(2,3,4) t1
    by (auto simp add: reply_facts sendall_facts reply_healthy)
qed

theorem private_send_failure_keeps_target_witness:
  "CHR '' '' \<notin> set ''bob'' \<and> map_of (clients lobby) ''bob'' = Some (''10.0.0.2'', 8)
   \<and> \<not> closed (socks lobby 8) \<and> peer (socks lobby 8) \<noteq> Up
   \<and> fst (dispatch ''alice'' 7 (''send '' @ ''bob'' @ '' '' @ ''hi'') lobby) = Next
   \<and> clients (snd (dispatch ''alice'' 7 (''send '' @ ''bob'' @ '' '' @ ''hi'') lobby)) = clients lobby
   \<and> \<not> closed (socks (snd (dispatch ''alice'' 7 (''send '' @ ''bob'' @ '' '' @ ''hi'') lobby)) 8)
   \<and> received (socks (snd (dispatch ''alice'' 7 (''send '' @ ''bob'' @ '' '' @ ''hi'') lobby)) 8) = []
   \<and> received (socks (snd (dispatch ''alice'' 7 (''send '' @ ''bob'' @ '' '' @ ''hi'') lobby)) 7)
       = [''User bob is not connected.'']"
proof -
  have h1: "CHR '' '' \<notin> set ''bob''" by simp
  have h2: "map_of (clients lobby) ''bob'' = Some (''10.0.0.2'', 8)" by (simp add: lobby_facts)
  have h3: "\<not> closed (socks lobby 8)" by (simp add: lobby_facts idle_def)
  have h4: "peer (socks lobby 8) \<noteq> Up" by (simp add: lobby_facts idle_def)
  note t = private_send_failure_keeps_target[OF h1 h2 h3 h4, of "''alice''" 7 "''hi''"]
  from t h1 h2 h3 h4 show ?thesis by (simp add: lobby_facts idle_def)
qed

text \<open>
  C5, as stated, fails: a line that is empty after \<open>strip\<close> is handled by \<open>if not data: break\<close>
  before the command chain is reached. The loop is left, the \<open>finally\<close> block unregisters the
  user, and no help text is written.
\<close>

theorem blank_line_ends_session:
  "running lobby \<and> strip '' \<newline>'' = []
   \<and> fst (loop_step ''carol'' ''10.0.0.3'' 9 (Recv '' \<newline>'') ''T'' ''T2'' lobby) = Closed
   \<and> outgoing (socks (snd (loop_step ''carol'' ''10.0.0.3'' 9 (Recv '' \<newline>'') ''T'' ''T2'' lobby)) 9) = []
   \<and> map_of (clients (snd (loop_step ''carol'' ''10.0.0.3'' 9 (Recv '' \<newline>'') ''T'' ''T2'' lobby))) ''carol'' = None"
  by code_simp

text \<open>
  C5, amended. In the loop, with the server running, let the line after \<open>strip\<close> be
  neither \<open>list\<close> nor \<open>exit\<close> and start with neither \<open>broadcast \<close> nor \<open>send \<close>. If it is
  not empty and the sender's connection is open with the peer up, the help text is written
  to the sender and arrives, the handler stays in its loop, and the registry and all other
  sockets are as before. If it is empty, the loop is left with the state unchanged and the
  handler ends. The help text names the four commands.
\<close>

theorem unknown_command_help:
  assumes "running s" and "strip raw \<noteq> ''list''" and "\<not> prefix ''broadcast '' (strip raw)"
    and "\<not> prefix ''send '' (strip raw)" and "strip raw \<noteq> ''exit''"
  shows "(strip raw \<noteq> [] \<and> \<not> closed (socks s c) \<and> peer (socks s c) = Up \<longrightarrow>
            fst (loop_step U ip c (Recv raw) t t' s) = Active U
            \<and> outgoing (socks (snd (loop_step U ip c (Recv raw) t t' s)) c)
                = outgoing (socks s c) @ [get_help]
            \<and> received (socks (snd (loop_step U ip c (Recv raw) t t' s)) c)
                = received (socks s c) @ [get_help]
            \<and> clients (snd (loop_step U ip c (Recv raw) t t' s)) = clients s
            \<and> running (snd (loop_step U ip c (Recv raw) t t' s))
            \<and> (\<forall>c'. c' \<noteq> c \<longrightarrow> socks (snd (loop_step U ip c (Recv raw) t t' s)) c' = socks s c'))
       \<and> (strip raw = [] \<longrightarrow>
            serve U ip c (Recv raw) t s = (Break, s)
            \<and> fst (loop_step U ip c (Recv raw) t t' s) \<noteq> Active U)
       \<and> sublist ''list'' get_help \<and> sublist ''broadcast <msg>'' get_help
       \<and> sublist ''send <username> <msg>'' get_help \<and> sublist ''exit'' get_help"
proof -
  let ?s1 = "s\<lparr>chat_history := chat_history s @ [''['' @ t @ ''] '' @ (U @ ''@'' @ ip) @ '': '' @ strip raw]\<rparr>"
  have a: "fst (loop_step U ip c (Recv raw) t t' s) = Active U
            \<and> outgoing (socks (snd (loop_step U ip c (Recv raw) t t' s)) c)
                = outgoing (socks s c) @ [get_help]
            \<and> received (socks (snd (loop_step U ip c (Recv raw) t t' s)) c)
                = received (socks s c) @ [get_help]
            \<and> clients (snd (loop_step U ip c (Recv raw) t t' s)) = clients s
            \<and> running (snd (loop_step U ip c (Recv raw) t t' s))
            \<and> (\<forall>c'. c' \<noteq> c \<longrightarrow> socks (snd (loop_step U ip c (Recv raw) t t' s)) c' = socks s c')"
    if ne: "strip raw \<noteq> []" and h: "\<not> closed (socks s c)" "peer (socks s c) = Up"
  proof -
    have sv: "serve U ip c (Recv raw) t s = reply c get_help ?s1"
      using serve_recv[OF ne, of U ip c t s] dispatch_help[OF assms(2-5), of U c ?s1] by simp
    from h have nx: "fst (reply c get_help ?s1) = Next" by (simp add: reply_healthy)
    obtain f s2 where r: "reply c get_help ?s1 = (f, s2)"
      by (cases "reply c get_help ?s1") auto
    with nx have "f = Next" by simp
    with r have ls: "loop_step U ip c (Recv raw) t t' s = (Active U, snd (reply c get_help ?s1))"
      using assms(1) by (simp add: loop_step_def sv)
    show ?thesis
      unfolding ls using h assms(1) by (simp add: reply_facts sendall_facts)
  qed
  have b: "serve U ip c (Recv raw) t s = (Break, s)
            \<and> fst (loop_step U ip c (Recv raw) t t' s) \<noteq> Active U"
    if e: "strip raw = []"
  proof -
    have sv: "serve U ip c (Recv raw) t s = (Break, s)" using e by (simp add: serve_def)
    have "fst (ended r) \<noteq> Active U" for r
      by (simp add: ended_def split: prod.splits option.splits)
    with sv assms(1) show ?thesis by (simp add: loop_step_def)
  qed
  from a b get_help_lists show ?thesis by blast
qed

theorem unknown_command_help_witness:
  "running lobby \<and> strip '' hello\<newline>'' = ''hello''
   \<and> fst (loop_step ''carol'' ''10.0.0.3'' 9 (Recv '' hello\<newline>'') ''T'' ''T2'' lobby) = Active ''carol''
   \<and> received (socks (snd (loop_step ''carol'' ''10.0.0.3'' 9 (Recv '' hello\<newline>'') ''T'' ''T2'' lobby)) 9)
       = [get_help]
   \<and> strip '' \<newline>'' = []
   \<and> serve ''carol'' ''10.0.0.3'' 9 (Recv '' \<newline>'') ''T'' lobby = (Break, lobby)"
proof -
  have h0: "running lobby" by (simp add: lobby_facts)
  have s1: "strip '' hello\<newline>'' = ''hello''" by code_simp
  have s2: "strip '' \<newline>'' = []" by code_simp
  have h1: "strip '' hello\<newline>'' \<noteq> ''list''" "\<not> prefix ''broadcast '' (strip '' hello\<newline>'')"
    "\<not> prefix ''send '' (strip '' hello\<newline>'')" "strip '' hello\<newline>'' \<noteq> ''exit''"
    by (simp_all add: s1)
  have h2: "strip '' \<newline>'' \<noteq> ''list''" "\<not> prefix ''broadcast '' (strip '' \<newline>'')"
    "\<not> prefix ''send '' (strip '' \<newline>'')" "strip '' \<newline>'' \<noteq> ''exit''"
    by (simp_all add: s2)
  note t1 = unknown_command_help[OF h0 h1, of 9 "''carol''" "''10.0.0.3''" "''T''" "''T2''"]
  note t2 = unknown_command_help[OF h0 h2, of 9 "''carol''" "''10.0.0.3''" "''T''" "''T2''"]
  from t1 s1 have a: "fst (loop_step ''carol'' ''10.0.0.3'' 9 (Recv '' hello\<newline>'') ''T'' ''T2'' lobby) = Active ''carol''
   \<and> received (socks (snd (loop_step ''carol'' ''10.0.0.3'' 9 (Recv '' hello\<newline>'') ''T'' ''T2'' lobby)) 9)
       = received (socks lobby 9) @ [get_help]"
    by (simp add: lobby_facts idle_def)
  from t2 s2 have b: "serve ''carol'' ''10.0.0.3'' 9 (Recv '' \<newline>'') ''T'' lobby = (Break, lobby)"
    by simp
  from h0 s1 s2 a b show ?thesis by (simp add: lobby_facts idle_def)
qed

text \<open>
  C6. Let the line after \<open>strip\<close> start with \<open>send \<close>. \<open>split(" ", 2)\<close> gives at most three
  tokens, which joined by single spaces are the line again, and only the last of them can
  hold a space; when the line is \<open>send A m\<close>
  with no space in \<open>A\<close>, the tokens are \<open>send\<close>, \<open>A\<close> and \<open>m\<close>, whatever spaces \<open>m\<close> holds.
  When there are fewer than three tokens, the usage line is written to the sender, the
  registry and all other sockets are as before, no exception leaves the loop body as long as
  the sender's handle is open, and with the peer up the loop goes on and the usage line
  arrives.
\<close>

theorem send_splits_in_three:
  assumes "prefix ''send '' (strip raw)"
  shows "length (split_max (CHR '' '') 2 (strip raw)) \<le> 3
       \<and> join '' '' (split_max (CHR '' '') 2 (strip raw)) = strip raw
       \<and> (\<forall>tok \<in> set (butlast (split_max (CHR '' '') 2 (strip raw))). CHR '' '' \<notin> set tok)
       \<and> (\<forall>A m. CHR '' '' \<notin> set A \<and> strip raw = ''send '' @ A @ '' '' @ m \<longrightarrow>
             split_max (CHR '' '') 2 (strip raw) = [''send'', A, m])
       \<and> (length (split_max (CHR '' '') 2 (strip raw)) < 3 \<longrightarrow>
             outgoing (socks (snd (serve U ip c (Recv raw) t s)) c)
               = outgoing (socks s c) @ [''Usage: send <username> <message>'']
             \<and> clients (snd (serve U ip c (Recv raw) t s)) = clients s
             \<and> (\<forall>c'. c' \<noteq> c \<longrightarrow> socks (snd (serve U ip c (Recv raw) t s)) c' = socks s c')
             \<and> (\<not> closed (socks s c) \<longrightarrow> (\<forall>e. fst (serve U ip c (Recv raw) t s) \<noteq> Raised e))
             \<and> (\<not> closed (socks s c) \<and> peer (socks s c) = Up \<longrightarrow>
                   fst (serve U ip c (Recv raw) t s) = Next
                   \<and> received (socks (snd (serve U ip c (Recv raw) t s)) c)
                       = received (socks s c) @ [''Usage: send <username> <message>'']))"
proof -
  let ?s1 = "s\<lparr>chat_history := chat_history s @ [''['' @ t @ ''] '' @ (U @ ''@'' @ ip) @ '': '' @ strip raw]\<rparr>"
  let ?um = "''Usage: send <username> <message>''"
  from assms have ne: "strip raw \<noteq> []" by auto
  from assms have nl: "strip raw \<noteq> ''list''" and nb: "\<not> prefix ''broadcast '' (strip raw)"
    by (auto simp: prefix_def)
  have a: "length (split_max (CHR '' '') 2 (strip raw)) \<le> 3"
    using split_max_length[of "CHR '' ''" 2 "strip raw"] by simp
  have b: "join '' '' (split_max (CHR '' '') 2 (strip raw)) = strip raw"
    by (rule split_max_join)
  have b2: "\<forall>tok \<in> set (butlast (split_max (CHR '' '') 2 (strip raw))). CHR '' '' \<notin> set tok"
    using split_max_butlast by blast
  have c: "\<forall>A m. CHR '' '' \<notin> set A \<and> strip raw = ''send '' @ A @ '' '' @ m \<longrightarrow>
             split_max (CHR '' '') 2 (strip raw) = [''send'', A, m]"
    using split_send by metis
  have d: "outgoing (socks (snd (serve U ip c (Recv raw) t s)) c) = outgoing (socks s c) @ [?um]
             \<and> clients (snd (serve U ip c (Recv raw) t s)) = clients s
             \<and> (\<forall>c'. c' \<noteq> c \<longrightarrow> socks (snd (serve U ip c (Recv raw) t s)) c' = socks s c')
             \<and> (\<not> closed (socks s c) \<longrightarrow> (\<forall>e. fst (serve U ip c (Recv raw) t s) \<noteq> Raised e))
             \<and> (\<not> closed (socks s c) \<and> peer (socks s c) = Up \<longrightarrow>
                   fst (serve U ip c (Recv raw) t s) = Next
                   \<and> received (socks (snd (serve U ip c (Recv raw) t s)) c)
                       = received (socks s c) @ [?um])"
    if short: "length (split_max (CHR '' '') 2 (strip raw)) < 3"
  proof -
    from split_send_two[OF assms short] obtain x
      where x: "split_max (CHR '' '') 2 (strip raw) = [''send'', x]" by blast
    have "dispatch U c (strip raw) ?s1 = reply c ?um ?s1"
      using nl nb assms x by (simp add: dispatch_def)
    with serve_recv[OF ne, of U ip c t s]
    have sv: "serve U ip c (Recv raw) t s = reply c ?um ?s1" by simp
    show ?thesis
      unfolding sv using reply_open[of ?s1 c ?um]
      by (simp add: reply_facts sendall_facts reply_healthy)
  qed
  from a b b2 c d show ?thesis by blast
qed

theorem send_splits_in_three_witness:
  "prefix ''send '' (strip ''send bob\<newline>'')
   \<and> length (split_max (CHR '' '') 2 (strip ''send bob\<newline>'')) < 3
   \<and> fst (serve ''carol'' ''10.0.0.3'' 9 (Recv ''send bob\<newline>'') ''T'' lobby) = Next
   \<and> received (socks (snd (serve ''carol'' ''10.0.0.3'' 9 (Recv ''send bob\<newline>'') ''T'' lobby)) 9)
       = [''Usage: send <username> <message>'']
   \<and> prefix ''send '' (strip ''send bob how are you'')
   \<and> split_max (CHR '' '') 2 (strip ''send bob how are you'') = [''send'', ''bob'', ''how are you'']
   \<and> butlast (split_max (CHR '' '') 2 (strip ''send bob how are you'')) = [''send'', ''bob'']
   \<and> CHR '' '' \<notin> set ''send'' \<and> CHR '' '' \<notin> set ''bob''"
proof -
  have s1: "strip ''send bob\<newline>'' = ''send bob''" by code_simp
  have s2: "strip ''send bob how are you'' = ''send '' @ ''bob'' @ '' '' @ ''how are you''" by code_simp
  have h1: "prefix ''send '' (strip ''send bob\<newline>'')" by (simp add: s1)
  have h2: "prefix ''send '' (strip ''send bob how are you'')" by (simp add: s2)
  have l1: "length (split_max (CHR '' '') 2 (strip ''send bob\<newline>'')) < 3"
    by (simp add: s1 numeral_2_eq_2)
  note t1 = send_splits_in_three[OF h1, of "''carol''" "''10.0.0.3''" 9 "''T''" lobby]
  note t2 = send_splits_in_three[OF h2, of "''carol''" "''10.0.0.3''" 9 "''T''" lobby]
  from t1 l1 have a: "fst (serve ''carol'' ''10.0.0.3'' 9 (Recv ''send bob\<newline>'') ''T'' lobby) = Next
   \<and> received (socks (snd (serve ''carol'' ''10.0.0.3'' 9 (Recv ''send bob\<newline>'') ''T'' lobby)) 9)
       = received (socks lobby 9) @ [''Usage: send <username> <message>'']"
    by (simp add: lobby_facts idle_def)
  have g: "CHR '' '' \<notin> set ''bob''" by simp
  from t2 have "CHR '' '' \<notin> set ''bob''
      \<and> strip ''send bob how are you'' = ''send '' @ ''bob'' @ '' '' @ ''how are you''
      \<longrightarrow> split_max (CHR '' '') 2 (strip ''send bob how are you'')
          = [''send'', ''bob'', ''how are you'']"
    by blast
  with g s2 have b: "split_max (CHR '' '') 2 (strip ''send bob how are you'')
                      = [''send'', ''bob'', ''how are you'']"
    by blast
  from t2 have "\<forall>tok \<in> set (butlast (split_max (CHR '' '') 2 (strip ''send bob how are you''))).
                  CHR '' '' \<notin> set tok"
    by blast
  then have c: "CHR '' '' \<notin> set ''send'' \<and> CHR '' '' \<notin> set ''bob''"
    unfolding b by simp
  from h1 h2 l1 a b c show ?thesis by (simp add: lobby_facts idle_def)
qed

section \<open>Leaving\<close>

lemma registry_ok_history [simp]:
  "registry_ok (s\<lparr>chat_history := h\<rparr>) = registry_ok s"
  by (simp add: registry_ok_def)

lemma entry_handle_distinct:
  assumes "registry_ok s" and "(u, ip, c) \<in> set (clients s)" and "(u', ip', c') \<in> set (clients s)"
    and "u \<noteq> u'"
  shows "c \<noteq> c'"
proof
  assume "c = c'"
  from assms(1) have "inj_on (\<lambda>(u, ip, c). c) (set (clients s))"
    by (simp add: registry_ok_def handles_def distinct_map)
  from inj_onD[OF this _ assms(2,3)] \<open>c = c'\<close> assms(4) show False by simp
qed

lemma finally_registered:
  assumes ok: "registry_ok s" and ne: "U \<noteq> []" and reg: "map_of (clients s) U = Some (ip0, c0)"
  shows "finally_block (Some U) ip c t s =
     (None, close c
        ((snd (broadcast_message (''[Server] '' @ U @ '' left the chat'') (Some U)
                 (s\<lparr>chat_history := chat_history s
                        @ [''['' @ t @ ''] '' @ ''Server'' @ '': '' @ (U @ ''@'' @ ip @ '' left the chat'')]\<rparr>)))
         \<lparr>clients := filter (\<lambda>(u, ip', c'). u \<noteq> U \<and> peer (socks s c') = Up) (clients s)\<rparr>))"
proof -
  let ?s1 = "s\<lparr>chat_history := chat_history s
                        @ [''['' @ t @ ''] '' @ ''Server'' @ '': '' @ (U @ ''@'' @ ip @ '' left the chat'')]\<rparr>"
  let ?m = "''[Server] '' @ U @ '' left the chat''"
  have ok1: "registry_ok ?s1" using ok by simp
  obtain r s2 where b: "broadcast_message ?m (Some U) ?s1 = (r, s2)"
    by (cases "broadcast_message ?m (Some U) ?s1") auto
  from broadcast_frame(1)[OF ok1, of ?m "Some U"] b have r: "r = None" by simp
  from broadcast_clients[OF ok1, of ?m "Some U"] b
  have c2: "clients s2 = filter (\<lambda>x. \<not> failed (Some U) (socks s) x) (clients s)" by simp
  from reg have mem: "(U, ip0, c0) \<in> set (clients s)" by (rule map_of_SomeD)
  have "(U, ip0, c0) \<in> set (clients s2)" using mem by (simp add: c2 failed_def)
  then have "U \<in> fst ` set (clients s2)" by force
  then have still: "map_of (clients s2) U \<noteq> None" by (simp add: map_of_eq_None_iff)
  have del: "AList.delete U (clients s2)
             = filter (\<lambda>(u, ip', c'). u \<noteq> U \<and> peer (socks s c') = Up) (clients s)"
    unfolding c2 AList.delete_eq filter_filter
    by (rule filter_cong) (auto simp: failed_def)
  from reg ne b r still del show ?thesis
    by (simp add: finally_block_def store_message_def Let_def)
qed

text \<open>
  C8. Let the registry be well formed and \<open>U\<close>, a non-empty name, be registered with the
  address and the handle of the handler that reaches its \<open>finally\<close> block. The block ends
  normally; afterwards \<open>U\<close> is not a key of the registry, which otherwise keeps the
  sessions whose delivery did not fail; the entry \<open>[t] Server: U@ip left the chat\<close> is the
  one appended to the history; every session that remains has received
  \<open>[Server] U left the chat\<close>; nothing was sent to the connection of \<open>U\<close>, which is
  closed; and the reply to a later \<open>list\<close> is built from the remaining entries, none of
  which is for \<open>U\<close>. The exact line \<open>exit\<close> is one way into the block: the line is logged
  and the handler ends with the block run on the state after that.
\<close>

theorem closing_unregisters_and_announces:
  assumes "registry_ok s" and "U \<noteq> []" and "map_of (clients s) U = Some (ip, c)"
  shows "fst (finally_block (Some U) ip c t s) = None
       \<and> map_of (clients (snd (finally_block (Some U) ip c t s))) U = None
       \<and> clients (snd (finally_block (Some U) ip c t s))
           = filter (\<lambda>(u, ip', c'). u \<noteq> U \<and> peer (socks s c') = Up) (clients s)
       \<and> chat_history (snd (finally_block (Some U) ip c t s))
           = chat_history s @ [''['' @ t @ ''] Server: '' @ U @ ''@'' @ ip @ '' left the chat'']
       \<and> (\<forall>(u, ip', c') \<in> set (clients (snd (finally_block (Some U) ip c t s))).
             received (socks (snd (finally_block (Some U) ip c t s)) c')
             = received (socks s c') @ [''[Server] '' @ U @ '' left the chat''])
       \<and> outgoing (socks (snd (finally_block (Some U) ip c t s)) c) = outgoing (socks s c)
       \<and> received (socks (snd (finally_block (Some U) ip c t s)) c) = received (socks s c)
       \<and> closed (socks (snd (finally_block (Some U) ip c t s)) c)
       \<and> list_response (snd (finally_block (Some U) ip c t s))
           = ''Connected clients:\<newline>''
             @ join ''\<newline>'' (map (\<lambda>(u, i, _). ''  '' @ u @ ''@'' @ i)
                 (filter (\<lambda>(u, ip', c'). u \<noteq> U \<and> peer (socks s c') = Up) (clients s)))
       \<and> (running s \<and> strip raw = ''exit'' \<longrightarrow>
             loop_step U ip c (Recv raw) t0 t s
             = (Closed, snd (finally_block (Some U) ip c t
                   (snd (store_message (U @ ''@'' @ ip) ''exit'' t0 s)))))"
proof -
  let ?s1 = "s\<lparr>chat_history := chat_history s
                        @ [''['' @ t @ ''] '' @ ''Server'' @ '': '' @ (U @ ''@'' @ ip @ '' left the chat'')]\<rparr>"
  let ?m = "''[Server] '' @ U @ '' left the chat''"
  let ?b = "snd (broadcast_message ?m (Some U) ?s1)"
  let ?keep = "filter (\<lambda>(u, ip', c'). u \<noteq> U \<and> peer (socks s c') = Up) (clients s)"
  have ok1: "registry_ok ?s1" using assms(1) by simp
  note fin = finally_registered[OF assms, where ip = ip and c = c and t = t]
  from assms(3) have mem: "(U, ip, c) \<in> set (clients s)" by (rule map_of_SomeD)
  have a: "fst (finally_block (Some U) ip c t s) = None" by (simp add: fin)
  have cl: "clients (snd (finally_block (Some U) ip c t s)) = ?keep"
    by (simp add: fin close_def)
  have "U \<notin> fst ` set ?keep" by auto
  then have b: "map_of (clients (snd (finally_block (Some U) ip c t s))) U = None"
    unfolding cl by (simp add: map_of_eq_None_iff del: set_filter)
  have h: "chat_history (snd (finally_block (Some U) ip c t s))
           = chat_history s @ [''['' @ t @ ''] Server: '' @ U @ ''@'' @ ip @ '' left the chat'']"
    using broadcast_frame(2)[OF ok1, of ?m "Some U"] by (simp add: fin close_def)
  have sk: "socks (snd (finally_block (Some U) ip c t s))
            = (socks ?b)(c := (socks ?b c)\<lparr>closed := True\<rparr>)"
    by (simp add: fin close_def)
  have own: "outgoing (socks ?b c) = outgoing (socks s c)" "received (socks ?b c) = received (socks s c)"
    using broadcast_recipient(1,2)[OF ok1, of U ip c ?m "Some U"] mem by simp_all
  have rest: "\<forall>(u, ip', c') \<in> set (clients (snd (finally_block (Some U) ip c t s))).
             received (socks (snd (finally_block (Some U) ip c t s)) c')
             = received (socks s c') @ [?m]"
  proof (clarify)
    fix u ip' c'
    assume "(u, ip', c') \<in> set (clients (snd (finally_block (Some U) ip c t s)))"
    then have m': "(u, ip', c') \<in> set (clients s)" and u: "u \<noteq> U" and up: "peer (socks s c') = Up"
      unfolding cl by auto
    from entry_handle_distinct[OF assms(1) m' mem u] have "c' \<noteq> c" .
    moreover have "received (socks ?b c') = received (socks s c') @ [?m]"
      using broadcast_recipient(2)[OF ok1, of u ip' c' ?m "Some U"] m' u up by simp
    ultimately show "received (socks (snd (finally_block (Some U) ip c t s)) c')
             = received (socks s c') @ [?m]"
      by (simp add: sk)
  qed
  have lr: "list_response (snd (finally_block (Some U) ip c t s))
           = ''Connected clients:\<newline>''
             @ join ''\<newline>'' (map (\<lambda>(u, i, _). ''  '' @ u @ ''@'' @ i) ?keep)"
    by (simp only: list_response_def cl)
  have ex: "loop_step U ip c (Recv raw) t0 t s
             = (Closed, snd (finally_block (Some U) ip c t
                   (snd (store_message (U @ ''@'' @ ip) ''exit'' t0 s))))"
    if run: "running s" and e: "strip raw = ''exit''"
  proof -
    let ?s0 = "snd (store_message (U @ ''@'' @ ip) ''exit'' t0 s)"
    have s0: "?s0 = s\<lparr>chat_history := chat_history s @ [''['' @ t0 @ ''] '' @ (U @ ''@'' @ ip) @ '': '' @ ''exit'']\<rparr>"
      by (simp add: store_message_def Let_def)
    have sv: "serve U ip c (Recv raw) t0 s = (Break, ?s0)"
      using e by (simp add: serve_def dispatch_def store_message_def Let_def)
    have ok0: "registry_ok ?s0" unfolding s0 using assms(1) by simp
    have reg0: "map_of (clients ?s0) U = Some (ip, c)" unfolding s0 using assms(3) by simp
    from finally_registered[OF ok0 assms(2) reg0, where ip = ip and c = c and t = t]
    have "fst (finally_block (Some U) ip c t ?s0) = None" by simp
    then have "ended (finally_block (Some U) ip c t ?s0)
               = (Closed, snd (finally_block (Some U) ip c t ?s0))"
      by (cases "finally_block (Some U) ip c t ?s0") (simp add: ended_def)
    with run sv show ?thesis by (simp add: loop_step_def)
  qed
  from a b cl h rest own sk lr ex show ?thesis by (simp add: sk)
qed

theorem closing_unregisters_and_announces_witness:
  "registry_ok lobby \<and> ''carol'' \<noteq> [] \<and> map_of (clients lobby) ''carol'' = Some (''10.0.0.3'', 9)
   \<and> running lobby \<and> strip ''exit\<newline>'' = ''exit''
   \<and> loop_step ''carol'' ''10.0.0.3'' 9 (Recv ''exit\<newline>'') ''T'' ''T2'' lobby
       = (Closed, snd (finally_block (Some ''carol'') ''10.0.0.3'' 9 ''T2''
                         (snd (store_message (''carol'' @ ''@'' @ ''10.0.0.3'') ''exit'' ''T'' lobby))))
   \<and> clients (snd (finally_block (Some ''carol'') ''10.0.0.3'' 9 ''T2'' lobby))
       = [(''alice'', ''10.0.0.1'', 7)]
   \<and> received (socks (snd (finally_block (Some ''carol'') ''10.0.0.3'' 9 ''T2'' lobby)) 7)
       = [''[Server] carol left the chat'']
   \<and> closed (socks (snd (finally_block (Some ''carol'') ''10.0.0.3'' 9 ''T2'' lobby)) 9)"
proof -
  have h1: "registry_ok lobby" by (rule registry_ok_lobby)
  have h2: "''carol'' \<noteq> []" by simp
  have h3: "map_of (clients lobby) ''carol'' = Some (''10.0.0.3'', 9)" by (simp add: lobby_facts)
  have h4: "running lobby" by (simp add: lobby_facts)
  have h5: "strip ''exit\<newline>'' = ''exit''" by code_simp
  have cl: "clients lobby = [(''alice'', ''10.0.0.1'', 7), (''bob'', ''10.0.0.2'', 8),
                             (''carol'', ''10.0.0.3'', 9)]" by (simp add: lobby_def)
  have keep: "filter (\<lambda>(u, ip', c'). u \<noteq> ''carol'' \<and> peer (socks lobby c') = Up) (clients lobby)
              = [(''alice'', ''10.0.0.1'', 7)]"
    by (simp add: cl lobby_facts idle_def)
  note t = closing_unregisters_and_announces[OF h1 h2 h3, of "''T2''" "''exit\<newline>''" "''T''"]
  from t h4 h5 have a: "loop_step ''carol'' ''10.0.0.3'' 9 (Recv ''exit\<newline>'') ''T'' ''T2'' lobby
       = (Closed, snd (finally_block (Some ''carol'') ''10.0.0.3'' 9 ''T2''
                         (snd (store_message (''carol'' @ ''@'' @ ''10.0.0.3'') ''exit'' ''T'' lobby))))"
    by blast
  from t have b: "clients (snd (finally_block (Some ''carol'') ''10.0.0.3'' 9 ''T2'' lobby))
       = filter (\<lambda>(u, ip', c'). u \<noteq> ''carol'' \<and> peer (socks lobby c') = Up) (clients lobby)"
    by blast
  from t have c: "closed (socks (snd (finally_block (Some ''carol'') ''10.0.0.3'' 9 ''T2'' lobby)) 9)"
    by blast
  from t have all: "\<forall>(u, ip', c') \<in> set (clients (snd (finally_block (Some ''carol'') ''10.0.0.3'' 9 ''T2'' lobby))).
             received (socks (snd (finally_block (Some ''carol'') ''10.0.0.3'' 9 ''T2'' lobby)) c')
             = received (socks lobby c') @ [''[Server] '' @ ''carol'' @ '' left the chat'']"
    by blast
  have d: "received (socks (snd (finally_block (Some ''carol'') ''10.0.0.3'' 9 ''T2'' lobby)) 7)
       = received (socks lobby 7) @ [''[Server] '' @ ''carol'' @ '' left the chat'']"
    using all unfolding b keep by simp
  note b' = b[unfolded keep]
  from h1 h2 h3 h4 h5 a b' c d show ?thesis by (simp add: lobby_facts idle_def)
qed

section \<open>Joining\<close>

lemma finally_block_shape:
  "snd (finally_block u ip c t s) = close c s
   \<or> (\<exists>U h m. snd (finally_block u ip c t s)
                 = snd (broadcast_message m (Some U) (s\<lparr>chat_history := h\<rparr>))
               \<or> snd (finally_block u ip c t s)
                 = close c ((snd (broadcast_message m (Some U) (s\<lparr>chat_history := h\<rparr>)))
                     \<lparr>clients := AList.delete U
                         (clients (snd (broadcast_message m (Some U) (s\<lparr>chat_history := h\<rparr>))))\<rparr>))"
proof (cases u)
  case None
  then show ?thesis by (simp add: finally_block_def)
next
  case (Some U)
  show ?thesis
  proof (cases "U \<noteq> [] \<and> map_of (clients s) U \<noteq> None")
    case False
    with Some show ?thesis by (auto simp add: finally_block_def)
  next
    case True
    let ?h = "chat_history s @ [''['' @ t @ ''] '' @ ''Server'' @ '': '' @ (U @ ''@'' @ ip @ '' left the chat'')]"
    let ?m = "''[Server] '' @ U @ '' left the chat''"
    obtain r s2 where b: "broadcast_message ?m (Some U) (s\<lparr>chat_history := ?h\<rparr>) = (r, s2)"
      by (cases "broadcast_message ?m (Some U) (s\<lparr>chat_history := ?h\<rparr>)") auto
    have "snd (finally_block u ip c t s) = s2
          \<or> snd (finally_block u ip c t s) = close c (s2\<lparr>clients := AList.delete U (clients s2)\<rparr>)"
      using Some True b
      by (cases r) (auto simp add: finally_block_def store_message_def Let_def)
    with b have "snd (finally_block u ip c t s)
                 = snd (broadcast_message ?m (Some U) (s\<lparr>chat_history := ?h\<rparr>))
               \<or> snd (finally_block u ip c t s)
                 = close c ((snd (broadcast_message ?m (Some U) (s\<lparr>chat_history := ?h\<rparr>)))
                     \<lparr>clients := AList.delete U
                         (clients (snd (broadcast_message ?m (Some U) (s\<lparr>chat_history := ?h\<rparr>))))\<rparr>)"
      by simp
    then show ?thesis by blast
  qed
qed

lemma finally_block_subset:
  "set (clients (snd (finally_block u ip c t s))) \<subseteq> set (clients s)"
proof -
  have d: "set (AList.delete k al) \<subseteq> set al" for k and al :: "(string \<times> string \<times> conn) list"
    by (auto simp: AList.delete_eq)
  have b: "set (clients (snd (broadcast_message m ex (s\<lparr>chat_history := h\<rparr>)))) \<subseteq> set (clients s)"
    for m ex h
    using broadcast_subset[of m ex "s\<lparr>chat_history := h\<rparr>"] by simp
  from finally_block_shape[of u ip c t s] show ?thesis
  proof (elim disjE exE)
    assume "snd (finally_block u ip c t s) = close c s"
    then show ?thesis by (simp add: close_def)
  next
    fix U h m
    assume "snd (finally_block u ip c t s)
            = snd (broadcast_message m (Some U) (s\<lparr>chat_history := h\<rparr>))"
    with b[of m "Some U" h] show ?thesis by simp
  next
    fix U h m
    assume "snd (finally_block u ip c t s)
            = close c ((snd (broadcast_message m (Some U) (s\<lparr>chat_history := h\<rparr>)))
                     \<lparr>clients := AList.delete U
                         (clients (snd (broadcast_message m (Some U) (s\<lparr>chat_history := h\<rparr>))))\<rparr>)"
    then have "set (clients (snd (finally_block u ip c t s)))
               \<subseteq> set (clients (snd (broadcast_message m (Some U) (s\<lparr>chat_history := h\<rparr>))))"
      using d by (simp add: close_def)
    with b[of m "Some U" h] show ?thesis by blast
  qed
qed

lemma finally_block_other:
  assumes "c \<notin> set (handles (clients s))"
  shows "outgoing (socks (snd (finally_block u ip c t s)) c) = outgoing (socks s c)
       \<and> received (socks (snd (finally_block u ip c t s)) c) = received (socks s c)
       \<and> (closed (socks s c) \<longrightarrow> closed (socks (snd (finally_block u ip c t s)) c))"
proof -
  have b: "socks (snd (broadcast_message m ex (s\<lparr>chat_history := h\<rparr>))) c = socks s c" for m ex h
    using broadcast_other[of c "s\<lparr>chat_history := h\<rparr>" m ex] assms by simp
  from finally_block_shape[of u ip c t s] show ?thesis
    by (elim disjE exE) (simp_all add: close_def b)
qed

lemma ended_not_active: "fst (ended r) \<noteq> Active u"
  by (simp add: ended_def split: prod.splits option.splits)

text \<open>
  C7, as stated, fails: when the first read times out, the exception goes to the outer
  handler, which prints it on the console, and the \<open>finally\<close> block closes the connection.
  Nothing is written to the connection.
\<close>

theorem timeout_closes_without_reply:
  "accept_step 5 ''10.0.0.9'' (Inl SocketTimeout) ''T'' ''T2'' duo
     = (Closed, duo\<lparr>socks := (socks duo)(5 := idle\<lparr>closed := True\<rparr>)\<rparr>)
   \<and> outgoing (socks (snd (accept_step 5 ''10.0.0.9'' (Inl SocketTimeout) ''T'' ''T2'' duo)) 5) = []"
  by (simp add: accept_step_def negotiate_def finally_block_def ended_def close_def duo_def idle_def)

text \<open>
  C7, amended. When the first read times out, the handler ends with the connection closed
  and nothing else changed: no reply is written and nobody is registered. When the name
  read is taken and the new connection is a fresh, open one with the peer up, the text
  \<open>Username already taken. Disconnecting.\<close> is written to it and arrives, the connection
  is closed, the handler ends, and no entry is added to the registry.
\<close>

theorem negotiation_failure_closes:
  "accept_step c ip (Inl SocketTimeout) t t' s = (Closed, close c s)
   \<and> (strip raw \<noteq> [] \<and> map_of (clients s) (strip raw) \<noteq> None
        \<and> c \<notin> set (handles (clients s)) \<and> \<not> closed (socks s c) \<and> peer (socks s c) = Up
      \<longrightarrow> (\<forall>u. fst (accept_step c ip (Inr raw) t t' s) \<noteq> Active u)
        \<and> outgoing (socks (snd (accept_step c ip (Inr raw) t t' s)) c)
            = outgoing (socks s c) @ [''Username already taken. Disconnecting.'']
        \<and> received (socks (snd (accept_step c ip (Inr raw) t t' s)) c)
            = received (socks s c) @ [''Username already taken. Disconnecting.'']
        \<and> closed (socks (snd (accept_step c ip (Inr raw) t t' s)) c)
        \<and> set (clients (snd (accept_step c ip (Inr raw) t t' s))) \<subseteq> set (clients s))"
proof -
  have a: "accept_step c ip (Inl SocketTimeout) t t' s = (Closed, close c s)"
    by (simp add: accept_step_def negotiate_def finally_block_def ended_def)
  have b: "(\<forall>u. fst (accept_step c ip (Inr raw) t t' s) \<noteq> Active u)
        \<and> outgoing (socks (snd (accept_step c ip (Inr raw) t t' s)) c)
            = outgoing (socks s c) @ [''Username already taken. Disconnecting.'']
        \<and> received (socks (snd (accept_step c ip (Inr raw) t t' s)) c)
            = received (socks s c) @ [''Username already taken. Disconnecting.'']
        \<and> closed (socks (snd (accept_step c ip (Inr raw) t t' s)) c)
        \<and> set (clients (snd (accept_step c ip (Inr raw) t t' s))) \<subseteq> set (clients s)"
    if ne: "strip raw \<noteq> []" and tk: "map_of (clients s) (strip raw) \<noteq> None"
      and fr: "c \<notin> set (handles (clients s))" and op: "\<not> closed (socks s c)"
      and up: "peer (socks s c) = Up"
  proof -
    let ?tm = "''Username already taken. Disconnecting.''"
    let ?s1 = "close c (s\<lparr>socks := (socks s)(c := (socks s c)\<lparr>outgoing := outgoing (socks s c) @ [?tm],
                   received := received (socks s c) @ [?tm]\<rparr>)\<rparr>)"
    have ng: "negotiate c ip (Inr raw) t s = (Some (strip raw), Return, ?s1)"
      using ne tk op up by (simp add: negotiate_def Let_def sendall_healthy)
    have ac: "accept_step c ip (Inr raw) t t' s = ended (finally_block (Some (strip raw)) ip c t' ?s1)"
      by (simp add: accept_step_def ng)
    have cl1: "clients ?s1 = clients s" by (simp add: close_def)
    have fr1: "c \<notin> set (handles (clients ?s1))" using fr by (simp add: close_def)
    have sk1: "outgoing (socks ?s1 c) = outgoing (socks s c) @ [?tm]"
      "received (socks ?s1 c) = received (socks s c) @ [?tm]" "closed (socks ?s1 c)"
      by (simp_all add: close_def)
    have sn: "snd (ended r) = snd r" for r :: "exn option \<times> state"
      by (simp add: ended_def split: prod.splits option.splits)
    from finally_block_other[OF fr1, of "Some (strip raw)" ip t'] sk1
      finally_block_subset[of "Some (strip raw)" ip c t' ?s1] cl1
    show ?thesis
      unfolding ac sn by (simp add: ended_not_active)
  qed
  from a b show ?thesis by blast
qed

theorem negotiation_failure_closes_witness:
  "strip ''bob\<newline>'' \<noteq> [] \<and> map_of (clients duo) (strip ''bob\<newline>'') \<noteq> None
   \<and> 5 \<notin> set (handles (clients duo)) \<and> \<not> closed (socks duo 5) \<and> peer (socks duo 5) = Up
   \<and> received (socks (snd (accept_step 5 ''10.0.0.9'' (Inr ''bob\<newline>'') ''T'' ''T2'' duo)) 5)
       = [''Username already taken. Disconnecting.'']
   \<and> closed (socks (snd (accept_step 5 ''10.0.0.9'' (Inr ''bob\<newline>'') ''T'' ''T2'' duo)) 5)
   \<and> set (clients (snd (accept_step 5 ''10.0.0.9'' (Inr ''bob\<newline>'') ''T'' ''T2'' duo)))
       \<subseteq> set (clients duo)"
proof -
  have s: "strip ''bob\<newline>'' = ''bob''" by code_simp
  have h: "strip ''bob\<newline>'' \<noteq> [] \<and> map_of (clients duo) (strip ''bob\<newline>'') \<noteq> None
   \<and> 5 \<notin> set (handles (clients duo)) \<and> \<not> closed (socks duo 5) \<and> peer (socks duo 5) = Up"
    by (simp add: s duo_def handles_def idle_def)
  have r: "received (socks duo 5) = []" by (simp add: duo_def idle_def)
  from negotiation_failure_closes[of 5 "''10.0.0.9''" "''T''" "''T2''" duo "''bob\<newline>''"] h r
  show ?thesis by simp
qed

text \<open>
  C4. The code does not do what the claim says. bob and carol are registered and a new
  connection, handle 5 from 10.0.0.9, sends \<open>bob\<close>. The new connection gets the taken-name
  text and is closed, as claimed; but the \<open>return\<close> runs the \<open>finally\<close> block with
  \<open>username = "bob"\<close>, which is a key of the registry, so the block logs that bob left (with
  the address of the newcomer), announces it to carol, and deletes the entry of bob, whose
  own connection stays open.
\<close>

theorem duplicate_join_unregisters_holder:
  "map_of (clients duo) ''bob'' = Some (''10.0.0.2'', 8)
   \<and> fst (accept_step 5 ''10.0.0.9'' (Inr ''bob'') ''T'' ''T2'' duo) = Closed
   \<and> received (socks (snd (accept_step 5 ''10.0.0.9'' (Inr ''bob'') ''T'' ''T2'' duo)) 5)
       = [''Username already taken. Disconnecting.'']
   \<and> closed (socks (snd (accept_step 5 ''10.0.0.9'' (Inr ''bob'') ''T'' ''T2'' duo)) 5)
   \<and> clients (snd (accept_step 5 ''10.0.0.9'' (Inr ''bob'') ''T'' ''T2'' duo))
       = [(''carol'', ''10.0.0.3'', 9)]
   \<and> chat_history (snd (accept_step 5 ''10.0.0.9'' (Inr ''bob'') ''T'' ''T2'' duo))
       = [''[T2] Server: bob@10.0.0.9 left the chat'']
   \<and> received (socks (snd (accept_step 5 ''10.0.0.9'' (Inr ''bob'') ''T'' ''T2'' duo)) 9)
       = [''[Server] bob left the chat'']
   \<and> socks (snd (accept_step 5 ''10.0.0.9'' (Inr ''bob'') ''T'' ''T2'' duo)) 8 = idle"
  by code_simp

section \<open>What every run of the handlers keeps\<close>

text \<open>
  The well-formedness assumed of the registry in the statements above (each name once, each
  handle once, no registered handle closed) holds in every configuration the handlers reach
  from an empty registry, whatever the clients send and whichever connections fail.
\<close>

lemma registry_ok_same:
  assumes "clients s' = clients s" and "\<forall>c. closed (socks s' c) = closed (socks s c)"
  shows "registry_ok s' = registry_ok s"
  using assms by (simp add: registry_ok_def)

lemma broadcast_keeps_ok:
  assumes "registry_ok s"
  shows "registry_ok (snd (broadcast_message m ex s))"
proof -
  let ?s' = "snd (broadcast_message m ex s)"
  have cl: "clients ?s' = filter (\<lambda>x. \<not> failed ex (socks s) x) (clients s)"
    by (rule broadcast_clients[OF assms])
  from assms have dk: "distinct (map fst (clients s))" and dh: "distinct (handles (clients s))"
    by (simp_all add: registry_ok_def)
  have a: "distinct (map fst (clients ?s'))" unfolding cl using dk by (rule distinct_map_filter)
  have b: "distinct (handles (clients ?s'))"
    unfolding cl handles_def using dh[unfolded handles_def] by (rule distinct_map_filter)
  have c: "\<forall>c \<in> set (handles (clients ?s')). \<not> closed (socks ?s' c)"
  proof
    fix c assume "c \<in> set (handles (clients ?s'))"
    then obtain u ip where m: "(u, ip, c) \<in> set (clients s)" and nf: "\<not> failed ex (socks s) (u, ip, c)"
      unfolding cl handles_def by auto
    from broadcast_recipient(3)[OF assms m, of m ex] nf show "\<not> closed (socks ?s' c)" by simp
  qed
  from a b c show ?thesis by (simp add: registry_ok_def)
qed

lemma reply_quiet:
  "clients (snd (reply c m s)) = clients s \<and> (\<forall>c'. closed (socks (snd (reply c m s)) c') = closed (socks s c'))"
  by (simp add: reply_facts sendall_facts)

lemma dispatch_shape:
  "(clients (snd (dispatch U c data s)) = clients s
      \<and> (\<forall>c'. closed (socks (snd (dispatch U c data s)) c') = closed (socks s c')))
   \<or> (\<exists>m. snd (dispatch U c data s) = snd (broadcast_message m (Some U) s))"
proof -
  have quiet_send: "clients (snd (case sendall tc pm (socks s) of
                     (None, n) \<Rightarrow> (Next, s\<lparr>socks := n\<rparr>)
                   | (Some e, n) \<Rightarrow>
                       if e = ConnectionResetError \<or> e = BrokenPipeError
                       then reply c rm (s\<lparr>socks := n\<rparr>)
                       else (inner_except e, s\<lparr>socks := n\<rparr>))) = clients s
      \<and> (\<forall>c'. closed (socks (snd (case sendall tc pm (socks s) of
                     (None, n) \<Rightarrow> (Next, s\<lparr>socks := n\<rparr>)
                   | (Some e, n) \<Rightarrow>
                       if e = ConnectionResetError \<or> e = BrokenPipeError
                       then reply c rm (s\<lparr>socks := n\<rparr>)
                       else (inner_except e, s\<lparr>socks := n\<rparr>))) c') = closed (socks s c'))"
    for tc pm rm
  proof -
    obtain r n where sa: "sendall tc pm (socks s) = (r, n)" by (cases "sendall tc pm (socks s)") auto
    have n: "\<forall>c'. closed (n c') = closed (socks s c')"
      using sendall_facts(4)[of tc pm "socks s"] sa by simp
    show ?thesis
      using n reply_quiet[of c rm "s\<lparr>socks := n\<rparr>"] by (cases r) (simp_all add: sa)
  qed
  consider (l) "data = ''list''" | (b) "data \<noteq> ''list''" "prefix ''broadcast '' data"
    | (sd) "data \<noteq> ''list''" "\<not> prefix ''broadcast '' data" "prefix ''send '' data"
    | (x) "data \<noteq> ''list''" "\<not> prefix ''broadcast '' data" "\<not> prefix ''send '' data" "data = ''exit''"
    | (h) "data \<noteq> ''list''" "\<not> prefix ''broadcast '' data" "\<not> prefix ''send '' data" "data \<noteq> ''exit''"
    by blast
  then show ?thesis
  proof cases
    case l
    then show ?thesis using reply_quiet[of c "list_response s" s] by (simp add: dispatch_def)
  next
    case b
    let ?bm = "''[BROADCAST from '' @ U @ ''] '' @ drop (length ''broadcast '') data"
    have "snd (dispatch U c data s) = snd (broadcast_message ?bm (Some U) s)"
      unfolding dispatch_broadcast[OF b(2)]
      by (cases "broadcast_message ?bm (Some U) s") (auto split: option.splits)
    then show ?thesis by blast
  next
    case sd
    show ?thesis
    proof (cases "\<exists>a tu msg. split_max (CHR '' '') 2 data = [a, tu, msg]")
      case True
      then obtain a tu msg where sp: "split_max (CHR '' '') 2 data = [a, tu, msg]" by blast
      show ?thesis
      proof (cases "map_of (clients s) tu")
        case None
        with sd sp show ?thesis
          using reply_quiet[of c "''User '' @ tu @ '' not found.''" s] by (simp add: dispatch_def)
      next
        case (Some v)
        obtain ip tc where v: "v = (ip, tc)" by (cases v) auto
        from sd sp Some v
        have "dispatch U c data s = (case sendall tc (''[Private from '' @ U @ ''] '' @ msg) (socks s) of
                     (None, n) \<Rightarrow> (Next, s\<lparr>socks := n\<rparr>)
                   | (Some e, n) \<Rightarrow>
                       if e = ConnectionResetError \<or> e = BrokenPipeError
                       then reply c (''User '' @ tu @ '' is not connected.'') (s\<lparr>socks := n\<rparr>)
                       else (inner_except e, s\<lparr>socks := n\<rparr>))"
          by (simp add: dispatch_def)
        with quiet_send show ?thesis by simp
      qed
    next
      case False
      then have "dispatch U c data s = reply c ''Usage: send <username> <message>'' s"
        using sd by (auto simp add: dispatch_def split: list.splits)
      then show ?thesis using reply_quiet[of c "''Usage: send <username> <message>''" s] by simp
    qed
  next
    case x
    then show ?thesis by (simp add: dispatch_def)
  next
    case h
    then show ?thesis using reply_quiet[of c get_help s] by (simp add: dispatch_help)
  qed
qed


lemma registry_ok_filter:
  assumes "registry_ok s" and "clients s' = filter P (clients s)"
    and "\<forall>c \<in> set (handles (clients s')). closed (socks s' c) = closed (socks s c)"
  shows "registry_ok s'"
proof -
  from assms(1) have dk: "distinct (map fst (clients s))" and dh: "distinct (handles (clients s))"
    and op: "\<forall>c \<in> set (handles (clients s)). \<not> closed (socks s c)"
    by (simp_all add: registry_ok_def)
  have a: "distinct (map fst (clients s'))" unfolding assms(2) using dk by (rule distinct_map_filter)
  have b: "distinct (handles (clients s'))"
    unfolding assms(2) handles_def using dh[unfolded handles_def] by (rule distinct_map_filter)
  have sub: "set (handles (clients s')) \<subseteq> set (handles (clients s))"
    unfolding assms(2) handles_def by force
  with op assms(3) have c: "\<forall>c \<in> set (handles (clients s')). \<not> closed (socks s' c)" by blast
  from a b c show ?thesis by (simp add: registry_ok_def)
qed

lemma serve_keeps:
  assumes "registry_ok s"
  shows "registry_ok (snd (serve U ip c p t s))
       \<and> set (clients (snd (serve U ip c p t s))) \<subseteq> set (clients s)"
proof -
  have d: "registry_ok (snd (dispatch U c data s1)) \<and> set (clients (snd (dispatch U c data s1))) \<subseteq> set (clients s)"
    if s1: "s1 = s\<lparr>chat_history := h\<rparr>" for data s1 h
  proof -
    have ok1: "registry_ok s1" and cl1: "clients s1 = clients s" using assms s1 by simp_all
    from dispatch_shape[of U c data s1] show ?thesis
    proof (elim disjE exE conjE)
      assume q: "clients (snd (dispatch U c data s1)) = clients s1"
        "\<forall>c'. closed (socks (snd (dispatch U c data s1)) c') = closed (socks s1 c')"
      from registry_ok_same[OF q] ok1 q(1) cl1 show ?thesis by simp
    next
      fix m assume b: "snd (dispatch U c data s1) = snd (broadcast_message m (Some U) s1)"
      from broadcast_keeps_ok[OF ok1, of m "Some U"] broadcast_subset[of m "Some U" s1] b cl1
      show ?thesis by simp
    qed
  qed
  show ?thesis
  proof (cases p)
    case NoData
    with assms show ?thesis by (simp add: serve_def)
  next
    case (RecvRaised e)
    with assms show ?thesis by (simp add: serve_def)
  next
    case (Recv raw)
    show ?thesis
    proof (cases "strip raw = []")
      case True
      with Recv assms show ?thesis by (simp add: serve_def)
    next
      case False
      from serve_recv[OF False, of U ip c t s] d[OF refl] Recv show ?thesis by simp
    qed
  qed
qed

lemma finally_keeps:
  assumes ok: "registry_ok s"
    and names: "\<forall>(u', ip', c') \<in> set (clients s). u' \<noteq> []"
    and own: "\<forall>(u', ip', c') \<in> set (clients s). c' = c \<longrightarrow> uo = Some u'"
  shows "registry_ok (snd (finally_block uo ip c t s))
       \<and> set (clients (snd (finally_block uo ip c t s))) \<subseteq> set (clients s)
       \<and> c \<notin> set (handles (clients (snd (finally_block uo ip c t s))))"
proof -
  have plain: "registry_ok (close c s) \<and> set (clients (close c s)) \<subseteq> set (clients s)
               \<and> c \<notin> set (handles (clients (close c s)))"
    if free: "c \<notin> set (handles (clients s))"
  proof -
    have "registry_ok (close c s)"
      by (rule registry_ok_filter[OF ok, where P = "\<lambda>_. True"]) (use free in \<open>auto simp: close_def\<close>)
    with free show ?thesis by (simp add: close_def)
  qed
  show ?thesis
  proof (cases "\<exists>U. uo = Some U \<and> U \<noteq> [] \<and> map_of (clients s) U \<noteq> None")
    case False
    have free: "c \<notin> set (handles (clients s))"
    proof
      assume "c \<in> set (handles (clients s))"
      then obtain u' ip' where m: "(u', ip', c) \<in> set (clients s)" by (auto simp: handles_def)
      with own names have "uo = Some u'" "u' \<noteq> []" by auto
      moreover from m have "u' \<in> fst ` set (clients s)" by force
      then have "map_of (clients s) u' \<noteq> None" by (simp add: map_of_eq_None_iff)
      ultimately show False using False by blast
    qed
    from False have "finally_block uo ip c t s = (None, close c s)"
      by (cases uo) (auto simp: finally_block_def)
    with plain[OF free] show ?thesis by simp
  next
    case True
    then obtain U ip0 c0 where uo: "uo = Some U" and ne: "U \<noteq> []"
      and reg: "map_of (clients s) U = Some (ip0, c0)" by auto
    let ?h = "chat_history s @ [''['' @ t @ ''] '' @ ''Server'' @ '': '' @ (U @ ''@'' @ ip @ '' left the chat'')]"
    let ?s1 = "s\<lparr>chat_history := ?h\<rparr>"
    let ?m = "''[Server] '' @ U @ '' left the chat''"
    let ?b = "snd (broadcast_message ?m (Some U) ?s1)"
    let ?keep = "filter (\<lambda>(u, ip', c'). u \<noteq> U \<and> peer (socks s c') = Up) (clients s)"
    let ?r = "close c (?b\<lparr>clients := ?keep\<rparr>)"
    have fin: "finally_block uo ip c t s = (None, ?r)"
      unfolding uo by (rule finally_registered[OF ok ne reg])
    have ok1: "registry_ok ?s1" using ok by simp
    have okb: "registry_ok ?b" by (rule broadcast_keeps_ok[OF ok1])
    have clb: "clients ?b = filter (\<lambda>x. \<not> failed (Some U) (socks s) x) (clients s)"
      using broadcast_clients[OF ok1, of ?m "Some U"] by simp
    have keep: "?keep = filter (\<lambda>(u, ip', c'). u \<noteq> U) (clients ?b)"
      unfolding clb filter_filter by (rule filter_cong) (auto simp: failed_def)
    have free: "c \<notin> set (handles ?keep)"
    proof
      assume "c \<in> set (handles ?keep)"
      then obtain u' ip' where "(u', ip', c) \<in> set (clients s)" "u' \<noteq> U"
        by (auto simp: handles_def)
      with own uo show False by auto
    qed
    have "registry_ok ?r"
    proof (rule registry_ok_filter[OF okb, where P = "\<lambda>(u, ip', c'). u \<noteq> U"])
      show "clients ?r = filter (\<lambda>(u, ip', c'). u \<noteq> U) (clients ?b)"
        using keep by (simp add: close_def)
      show "\<forall>c' \<in> set (handles (clients ?r)). closed (socks ?r c') = closed (socks ?b c')"
        using free by (auto simp: close_def)
    qed
    moreover have "set (clients ?r) \<subseteq> set (clients s)" by (auto simp: close_def)
    moreover have "c \<notin> set (handles (clients ?r))" using free by (simp add: close_def)
    ultimately show ?thesis by (simp add: fin)
  qed
qed

lemma ended_snd: "snd (ended r) = snd r"
  by (cases r) (auto simp: ended_def split: option.splits)

lemma loop_step_keeps:
  assumes ok: "registry_ok s"
    and names: "\<forall>(u', ip', c') \<in> set (clients s). u' \<noteq> []"
    and own: "\<forall>(u', ip', c') \<in> set (clients s). c' = c \<longrightarrow> u' = U"
  shows "registry_ok (snd (loop_step U ip c p t t' s))
       \<and> set (clients (snd (loop_step U ip c p t t' s))) \<subseteq> set (clients s)
       \<and> (fst (loop_step U ip c p t t' s) = Active U
           \<or> (\<forall>u. fst (loop_step U ip c p t t' s) \<noteq> Active u)
             \<and> c \<notin> set (handles (clients (snd (loop_step U ip c p t t' s)))))"
proof -
  have fin: "registry_ok (snd (ended (finally_block (Some U) ip c t' s1)))
       \<and> set (clients (snd (ended (finally_block (Some U) ip c t' s1)))) \<subseteq> set (clients s)
       \<and> (fst (ended (finally_block (Some U) ip c t' s1)) = Active U
           \<or> (\<forall>u. fst (ended (finally_block (Some U) ip c t' s1)) \<noteq> Active u)
             \<and> c \<notin> set (handles (clients (snd (ended (finally_block (Some U) ip c t' s1))))))"
    if ok1: "registry_ok s1" and sub: "set (clients s1) \<subseteq> set (clients s)" for s1
  proof -
    have n1: "\<forall>(u', ip', c') \<in> set (clients s1). u' \<noteq> []"
    proof
      fix x assume "x \<in> set (clients s1)"
      with sub have "x \<in> set (clients s)" by (rule subsetD)
      with names show "case x of (u', ip', c') \<Rightarrow> u' \<noteq> []" by (rule bspec)
    qed
    have o1: "\<forall>(u', ip', c') \<in> set (clients s1). c' = c \<longrightarrow> Some U = Some u'"
    proof
      fix x assume "x \<in> set (clients s1)"
      with sub have "x \<in> set (clients s)" by (rule subsetD)
      from bspec[OF own this] show "case x of (u', ip', c') \<Rightarrow> c' = c \<longrightarrow> Some U = Some u'"
        by (auto split: prod.splits)
    qed
    note k = finally_keeps[OF ok1 n1 o1, of ip t']
    from k have k1: "registry_ok (snd (finally_block (Some U) ip c t' s1))"
      and k2: "set (clients (snd (finally_block (Some U) ip c t' s1))) \<subseteq> set (clients s1)"
      and k3: "c \<notin> set (handles (clients (snd (finally_block (Some U) ip c t' s1))))"
      by blast+
    from k2 sub have k2': "set (clients (snd (finally_block (Some U) ip c t' s1))) \<subseteq> set (clients s)"
      by (rule subset_trans)
    have na: "\<forall>u. fst (ended (finally_block (Some U) ip c t' s1)) \<noteq> Active u"
      by (simp add: ended_not_active)
    show ?thesis unfolding ended_snd using k1 k2' k3 na by blast
  qed
  show ?thesis
  proof (cases "running s")
    case False
    then have "loop_step U ip c p t t' s = ended (finally_block (Some U) ip c t' s)"
      by (simp add: loop_step_def)
    then show ?thesis using fin[OF ok subset_refl] by (simp only:)
  next
    case True
    obtain f s1 where sv: "serve U ip c p t s = (f, s1)" by (cases "serve U ip c p t s") auto
    from serve_keeps[OF ok, of U ip c p t] sv
    have ok1: "registry_ok s1" and sub: "set (clients s1) \<subseteq> set (clients s)" by simp_all
    show ?thesis
    proof (cases "f = Next")
      case n: True
      then have "loop_step U ip c p t t' s = (Active U, s1)"
        using True sv by (simp add: loop_step_def)
      then show ?thesis using ok1 sub by simp
    next
      case False
      then have "loop_step U ip c p t t' s = ended (finally_block (Some U) ip c t' s1)"
        using True sv by (cases f) (simp_all add: loop_step_def)
      then show ?thesis using fin[OF ok1 sub] by (simp only:)
    qed
  qed
qed

lemma update_new: "k \<notin> fst ` set al \<Longrightarrow> AList.update k v al = al @ [(k, v)]"
  by (induction al) auto

lemma registry_ok_register:
  assumes ok: "registry_ok s" and new: "u \<notin> fst ` set (clients s)"
    and fresh: "c \<notin> set (handles (clients s))" and op: "\<not> closed (socks s c)"
  shows "registry_ok (s\<lparr>clients := clients s @ [(u, ip, c)], chat_history := h\<rparr>)"
proof -
  from ok have dk: "distinct (map fst (clients s))" and dh: "distinct (handles (clients s))"
    and opn: "\<forall>c \<in> set (handles (clients s)). \<not> closed (socks s c)"
    by (simp_all add: registry_ok_def)
  have a: "distinct (map fst (clients s @ [(u, ip, c)]))" using dk new by simp
  have b: "distinct (handles (clients s @ [(u, ip, c)]))"
    using dh fresh by (simp add: handles_def)
  have c: "\<forall>c' \<in> set (handles (clients s @ [(u, ip, c)])). \<not> closed (socks s c')"
    using opn op by (simp add: handles_def)
  from a b c show ?thesis by (simp add: registry_ok_def)
qed

lemma finally_after_accept:
  assumes ok1: "registry_ok s1" and n1: "\<forall>(u', ip', c') \<in> set (clients s1). u' \<noteq> []"
    and o1: "\<forall>(u', ip', c') \<in> set (clients s1). c' = c \<longrightarrow> uo = Some u'"
    and sub: "set (clients s1) \<subseteq> insert (w, ip, c) (set (clients s))"
  shows "registry_ok (snd (ended (finally_block uo ip c t' s1)))
       \<and> (\<forall>u. fst (ended (finally_block uo ip c t' s1)) \<noteq> Active u)
       \<and> set (clients (snd (ended (finally_block uo ip c t' s1)))) \<subseteq> set (clients s)"
proof -
  note k = finally_keeps[OF ok1 n1 o1, of ip t']
  from k have k1: "registry_ok (snd (finally_block uo ip c t' s1))"
    and k2: "set (clients (snd (finally_block uo ip c t' s1))) \<subseteq> set (clients s1)"
    and k3: "c \<notin> set (handles (clients (snd (finally_block uo ip c t' s1))))"
    by blast+
  have k4: "set (clients (snd (finally_block uo ip c t' s1))) \<subseteq> set (clients s)"
  proof
    fix x assume x: "x \<in> set (clients (snd (finally_block uo ip c t' s1)))"
    with k2 have x1: "x \<in> set (clients s1)" by (rule subsetD)
    obtain u' ip' c' where xe: "x = (u', ip', c')" by (cases x) auto
    from x xe have "c' \<in> set (handles (clients (snd (finally_block uo ip c t' s1))))"
      by (force simp: handles_def)
    with k3 have "c' \<noteq> c" by blast
    with x1 sub xe show "x \<in> set (clients s)" by auto
  qed
  have na: "\<forall>u. fst (ended (finally_block uo ip c t' s1)) \<noteq> Active u"
    by (simp add: ended_not_active)
  show ?thesis unfolding ended_snd using k1 k4 na by blast
qed

lemma accept_step_keeps:
  assumes ok: "registry_ok s"
    and names: "\<forall>(u', ip', c') \<in> set (clients s). u' \<noteq> []"
    and fresh: "c \<notin> set (handles (clients s))" and op: "\<not> closed (socks s c)"
  shows "registry_ok (snd (accept_step c ip rx t t' s))
       \<and> ((\<exists>u. fst (accept_step c ip rx t t' s) = Active u \<and> u \<noteq> []
                \<and> set (clients (snd (accept_step c ip rx t t' s)))
                    \<subseteq> insert (u, ip, c) (set (clients s)))
           \<or> (\<forall>u. fst (accept_step c ip rx t t' s) \<noteq> Active u)
             \<and> set (clients (snd (accept_step c ip rx t t' s))) \<subseteq> set (clients s))"
proof -
  have untouched: ?thesis
    if ac: "accept_step c ip rx t t' s = ended (finally_block uo ip c t' s1)"
      and cl: "clients s1 = clients s"
      and sk: "\<forall>c'. c' \<noteq> c \<longrightarrow> closed (socks s1 c') = closed (socks s c')" for uo s1
  proof -
    have ok1: "registry_ok s1"
    proof (rule registry_ok_filter[OF ok, where P = "\<lambda>_. True"])
      show "clients s1 = filter (\<lambda>_. True) (clients s)" using cl by simp
      show "\<forall>c' \<in> set (handles (clients s1)). closed (socks s1 c') = closed (socks s c')"
        using sk fresh cl by auto
    qed
    have o1: "\<forall>(u', ip', c') \<in> set (clients s1). c' = c \<longrightarrow> uo = Some u'"
      unfolding cl using fresh by (force simp: handles_def)
    have n1: "\<forall>(u', ip', c') \<in> set (clients s1). u' \<noteq> []" unfolding cl by (rule names)
    have sub: "set (clients s1) \<subseteq> insert ([], ip, c) (set (clients s))" unfolding cl by blast
    from finally_after_accept[OF ok1 n1 o1 sub, of t'] show ?thesis unfolding ac by blast
  qed
  show ?thesis
  proof (cases rx)
    case (Inl e)
    then have "accept_step c ip rx t t' s = ended (finally_block None ip c t' s)"
      by (simp add: accept_step_def negotiate_def)
    then show ?thesis by (rule untouched) simp_all
  next
    case (Inr raw)
    let ?u = "strip raw"
    show ?thesis
    proof (cases "?u = []")
      case True
      with Inr have "accept_step c ip rx t t' s = ended (finally_block (Some ?u) ip c t' (close c s))"
        by (simp add: accept_step_def negotiate_def)
      then show ?thesis by (rule untouched) (simp_all add: close_def)
    next
      case ne: False
      show ?thesis
      proof (cases "map_of (clients s) ?u")
        case (Some v)
        let ?tm = "''Username already taken. Disconnecting.''"
        obtain r n where sa: "sendall c ?tm (socks s) = (r, n)"
          by (cases "sendall c ?tm (socks s)") auto
        from sendall_facts(4)[of c ?tm "socks s"] sa
        have n: "\<forall>c'. closed (n c') = closed (socks s c')" by simp
        show ?thesis
        proof (cases r)
          case None
          with Inr ne Some sa
          have "accept_step c ip rx t t' s
                = ended (finally_block (Some ?u) ip c t' (close c (s\<lparr>socks := n\<rparr>)))"
            by (simp add: accept_step_def negotiate_def)
          then show ?thesis by (rule untouched) (simp_all add: close_def n)
        next
          case (Some e)
          with Inr ne \<open>map_of (clients s) ?u = Some v\<close> sa
          have "accept_step c ip rx t t' s = ended (finally_block (Some ?u) ip c t' (s\<lparr>socks := n\<rparr>))"
            by (simp add: accept_step_def negotiate_def)
          then show ?thesis by (rule untouched) (simp_all add: n)
        qed
      next
        case None
        let ?h = "chat_history s @ [''['' @ t @ ''] '' @ ''Server'' @ '': '' @ (?u @ ''@'' @ ip @ '' joined the chat'')]"
        let ?s2 = "s\<lparr>clients := clients s @ [(?u, ip, c)], chat_history := ?h\<rparr>"
        let ?jm = "''[Server] '' @ ?u @ '' joined the chat''"
        let ?s3 = "snd (broadcast_message ?jm (Some ?u) ?s2)"
        let ?wm = "''Welcome to the chat, '' @ ?u @ ''! Type 'help' for commands.''"
        from None have notin: "?u \<notin> fst ` set (clients s)" by (simp add: map_of_eq_None_iff)
        have upd: "AList.update ?u (ip, c) (clients s) = clients s @ [(?u, ip, c)]"
          by (rule update_new[OF notin])
        have ok2: "registry_ok ?s2" by (rule registry_ok_register[OF ok notin fresh op])
        have ok3: "registry_ok ?s3" by (rule broadcast_keeps_ok[OF ok2])
        have b1: "fst (broadcast_message ?jm (Some ?u) ?s2) = None"
          by (rule broadcast_frame(1)[OF ok2])
        have "set (clients ?s3) \<subseteq> set (clients ?s2)" by (rule broadcast_subset)
        then have sub3: "set (clients ?s3) \<subseteq> insert (?u, ip, c) (set (clients s))" by auto
        obtain r n where sa: "sendall c ?wm (socks ?s3) = (r, n)"
          by (cases "sendall c ?wm (socks ?s3)") auto
        from sendall_facts(4)[of c ?wm "socks ?s3"] sa
        have n: "\<forall>c'. closed (n c') = closed (socks ?s3 c')" by simp
        define s4 where "s4 = ?s3\<lparr>socks := n\<rparr>"
        have cl4: "clients s4 = clients ?s3" by (simp add: s4_def)
        have ok4: "registry_ok s4"
          using registry_ok_same[of s4 ?s3] n ok3 by (simp add: s4_def)
        obtain bs where bm: "broadcast_message ?jm (Some ?u) ?s2 = (None, bs)"
          using b1 by (cases "broadcast_message ?jm (Some ?u) ?s2") auto
        then have bs: "?s3 = bs" by simp
        have ng: "negotiate c ip rx t s
                  = (Some ?u, (case r of None \<Rightarrow> Enter | Some e \<Rightarrow> Throw e), s4)"
          unfolding s4_def bs using Inr ne None bm sa[unfolded bs] upd
          by (cases r) (simp_all add: negotiate_def store_message_def Let_def)
        have sub4: "set (clients s4) \<subseteq> insert (?u, ip, c) (set (clients s))"
          unfolding cl4 by (rule sub3)
        show ?thesis
        proof (cases r)
          case rn: None
          then have ac: "accept_step c ip rx t t' s = (Active ?u, s4)"
            by (simp add: accept_step_def ng)
          show ?thesis unfolding ac using ok4 sub4 ne by auto
        next
          case (Some e)
          then have ac: "accept_step c ip rx t t' s = ended (finally_block (Some ?u) ip c t' s4)"
            by (simp add: accept_step_def ng)
          have n4: "\<forall>(u', ip', c') \<in> set (clients s4). u' \<noteq> []"
          proof
            fix x assume "x \<in> set (clients s4)"
            with sub4 have "x = (?u, ip, c) \<or> x \<in> set (clients s)" by auto
            with names ne show "case x of (u', ip', c') \<Rightarrow> u' \<noteq> []" by auto
          qed
          have o4: "\<forall>(u', ip', c') \<in> set (clients s4). c' = c \<longrightarrow> Some ?u = Some u'"
          proof
            fix x assume "x \<in> set (clients s4)"
            with sub4 have "x = (?u, ip, c) \<or> x \<in> set (clients s)" by auto
            with fresh show "case x of (u', ip', c') \<Rightarrow> c' = c \<longrightarrow> Some ?u = Some u'"
              by (force simp: handles_def)
          qed
          from finally_after_accept[OF ok4 n4 o4 sub4, of t'] show ?thesis unfolding ac by blast
        qed
      qed
    qed
  qed
qed

lemma consistent_iff:
  "consistent (s, T) \<longleftrightarrow>
     registry_ok s \<and> (\<forall>(u, ip, c) \<in> set (clients s). u \<noteq> [] \<and> T c = Some (u, ip))"
  by (simp add: consistent_def)

lemma step_keeps_consistent:
  assumes "consistent cfg" and "step e cfg = Some cfg'"
  shows "consistent cfg'"
proof -
  obtain s T where cfg: "cfg = (s, T)" by (cases cfg) auto
  from assms(1) cfg have ok: "registry_ok s"
    and ent: "\<forall>(u, ip, c) \<in> set (clients s). u \<noteq> [] \<and> T c = Some (u, ip)"
    by (simp_all add: consistent_iff)
  have names: "\<forall>(u', ip', c') \<in> set (clients s). u' \<noteq> []"
  proof
    fix x assume "x \<in> set (clients s)"
    from bspec[OF ent this] show "case x of (u', ip', c') \<Rightarrow> u' \<noteq> []" by (auto split: prod.splits)
  qed
  have owner: "T c = Some (u, ip)" if "(u, ip, c) \<in> set (clients s)" for u ip c
    using bspec[OF ent that] by simp
  show ?thesis
  proof (cases e)
    case (Accept c ip rx t t')
    from assms(2) cfg Accept have free: "T c = None" and op: "\<not> closed (socks s c)"
      by (cases "T c"; simp split: if_splits)+
    have fresh: "c \<notin> set (handles (clients s))"
    proof
      assume "c \<in> set (handles (clients s))"
      then obtain u' ip' where "(u', ip', c) \<in> set (clients s)" by (auto simp: handles_def)
      from owner[OF this] free show False by simp
    qed
    obtain h s' where ac: "accept_step c ip rx t t' s = (h, s')"
      by (cases "accept_step c ip rx t t' s") auto
    from accept_step_keeps[OF ok names fresh op, of ip rx t t'] ac
    have ok': "registry_ok s'"
      and alt: "(\<exists>u. h = Active u \<and> u \<noteq> [] \<and> set (clients s') \<subseteq> insert (u, ip, c) (set (clients s)))
                \<or> (\<forall>u. h \<noteq> Active u) \<and> set (clients s') \<subseteq> set (clients s)"
      by simp_all
    from alt show ?thesis
    proof (elim disjE exE conjE)
      fix u assume h: "h = Active u" and ne: "u \<noteq> []"
        and sub: "set (clients s') \<subseteq> insert (u, ip, c) (set (clients s))"
      from assms(2) cfg Accept free op ac h have cfg': "cfg' = (s', T(c \<mapsto> (u, ip)))" by simp
      have "\<forall>(u', ip', c') \<in> set (clients s'). u' \<noteq> [] \<and> (T(c \<mapsto> (u, ip))) c' = Some (u', ip')"
      proof
        fix x assume "x \<in> set (clients s')"
        with sub have "x = (u, ip, c) \<or> x \<in> set (clients s)" by auto
        then show "case x of (u', ip', c') \<Rightarrow> u' \<noteq> [] \<and> (T(c \<mapsto> (u, ip))) c' = Some (u', ip')"
        proof
          assume "x = (u, ip, c)" with ne show ?thesis by simp
        next
          assume xs: "x \<in> set (clients s)"
          obtain u' ip' c' where xe: "x = (u', ip', c')" by (cases x) auto
          from xs xe owner[of u' ip' c'] free have "c' \<noteq> c" by auto
          with bspec[OF ent xs] xe show ?thesis by simp
        qed
      qed
      with ok' show ?thesis unfolding cfg' consistent_iff by simp
    next
      assume na: "\<forall>u. h \<noteq> Active u" and sub: "set (clients s') \<subseteq> set (clients s)"
      from assms(2) cfg Accept free op ac na have cfg': "cfg' = (s', T)"
        by (cases h) simp_all
      have "\<forall>(u', ip', c') \<in> set (clients s'). u' \<noteq> [] \<and> T c' = Some (u', ip')"
      proof
        fix x assume "x \<in> set (clients s')"
        with sub have "x \<in> set (clients s)" by (rule subsetD)
        with ent show "case x of (u', ip', c') \<Rightarrow> u' \<noteq> [] \<and> T c' = Some (u', ip')" by (rule bspec)
      qed
      with ok' show ?thesis unfolding cfg' consistent_iff by simp
    qed
  next
    case (Poll c p t t')
    from assms(2) cfg Poll obtain u ip where th: "T c = Some (u, ip)"
      by (cases "T c") auto
    have own: "\<forall>(u', ip', c') \<in> set (clients s). c' = c \<longrightarrow> u' = u"
    proof (clarify)
      fix u' ip' assume "(u', ip', c) \<in> set (clients s)"
      from owner[OF this] th show "u' = u" by simp
    qed
    obtain h s' where ls: "loop_step u ip c p t t' s = (h, s')"
      by (cases "loop_step u ip c p t t' s") auto
    from loop_step_keeps[OF ok names own, of ip p t t'] ls
    have ok': "registry_ok s'" and sub: "set (clients s') \<subseteq> set (clients s)"
      and alt: "h = Active u \<or> (\<forall>u. h \<noteq> Active u) \<and> c \<notin> set (handles (clients s'))"
      by simp_all
    have ent': "\<forall>(u', ip', c') \<in> set (clients s'). u' \<noteq> [] \<and> T c' = Some (u', ip')"
    proof
      fix x assume "x \<in> set (clients s')"
      with sub have "x \<in> set (clients s)" by (rule subsetD)
      with ent show "case x of (u', ip', c') \<Rightarrow> u' \<noteq> [] \<and> T c' = Some (u', ip')" by (rule bspec)
    qed
    from alt show ?thesis
    proof (elim disjE conjE)
      assume h: "h = Active u"
      from assms(2) cfg Poll th ls h have cfg': "cfg' = (s', T)" by simp
      from ok' ent' show ?thesis unfolding cfg' consistent_iff by simp
    next
      assume na: "\<forall>u. h \<noteq> Active u" and gone: "c \<notin> set (handles (clients s'))"
      from assms(2) cfg Poll th ls na have cfg': "cfg' = (s', T(c := None))"
        by (cases h) simp_all
      have "\<forall>(u', ip', c') \<in> set (clients s'). u' \<noteq> [] \<and> (T(c := None)) c' = Some (u', ip')"
      proof
        fix x assume xs: "x \<in> set (clients s')"
        obtain u' ip' c' where xe: "x = (u', ip', c')" by (cases x) auto
        from xs xe have "c' \<in> set (handles (clients s'))" by (force simp: handles_def)
        with gone have "c' \<noteq> c" by blast
        with bspec[OF ent' xs] xe
        show "case x of (u', ip', c') \<Rightarrow> u' \<noteq> [] \<and> (T(c := None)) c' = Some (u', ip')" by simp
      qed
      with ok' show ?thesis unfolding cfg' consistent_iff by simp
    qed
  next
    case (Link c l)
    with assms(2) cfg have cfg': "cfg' = (s\<lparr>socks := (socks s)(c := (socks s c)\<lparr>peer := l\<rparr>)\<rparr>, T)"
      by simp
    have "registry_ok (s\<lparr>socks := (socks s)(c := (socks s c)\<lparr>peer := l\<rparr>)\<rparr>)"
      using registry_ok_same[of "s\<lparr>socks := (socks s)(c := (socks s c)\<lparr>peer := l\<rparr>)\<rparr>" s] ok by simp
    with ent show ?thesis unfolding cfg' consistent_iff by simp
  qed
qed

lemma run_keeps_consistent:
  "consistent cfg \<Longrightarrow> run es cfg = Some cfg' \<Longrightarrow> consistent cfg'"
proof (induction es arbitrary: cfg)
  case Nil
  then show ?case by simp
next
  case (Cons e es)
  from Cons.prems(2) obtain mid where st: "step e cfg = Some mid" and rn: "run es mid = Some cfg'"
    by (cases "step e cfg") auto
  from step_keeps_consistent[OF Cons.prems(1) st] have "consistent mid" .
  from Cons.IH[OF this rn] show ?case .
qed

lemma start_consistent:
  "clients s = [] \<Longrightarrow> consistent (s, Map.empty)"
  by (simp add: consistent_def registry_ok_def handles_def)

lemma reachable_well_formed:
  assumes "clients s = []" and "run es (s, Map.empty) = Some (s', T)"
  shows "registry_ok s'" and "distinct (map fst (clients s'))"
proof -
  from run_keeps_consistent[OF start_consistent[OF assms(1)] assms(2)]
  show "registry_ok s'" by (simp add: consistent_iff)
  then show "distinct (map fst (clients s'))" by (simp add: registry_ok_def)
qed

end
